theory Spec2Isabelle
  imports
    Main
    "HOL-Library.Word"
    "HOL-Library.Char_ord"
    "HOL-Library.List_Lexorder"
    "HOL-Library.Product_Lexorder"
    "HOL-Library.Multiset"
begin

section \<open>Passenger records and their order\<close>

text \<open>
  \<^verbatim>\<open>struct Passenger\<close> of \<^verbatim>\<open>main.cpp\<close>. A \<^verbatim>\<open>std::string\<close> is a byte string and
  compares lexicographically by unsigned byte value, which is the order of
  \<^typ>\<open>char list\<close> from \<open>Char_ord\<close> and \<open>List_Lexorder\<close>. The cabin number is a 32-bit
  \<^verbatim>\<open>int\<close>: a \<^typ>\<open>32 word\<close> read as two's complement, compared with \<open><s\<close>.
\<close>

record Passenger =
  fullName :: string
  cabinNumber :: "32 word"
  cabinType :: string
  destinationPort :: string

text \<open>\<^verbatim>\<open>Passenger::operator<\<close>, branch for branch.\<close>

definition passenger_less :: "Passenger \<Rightarrow> Passenger \<Rightarrow> bool" where
  "passenger_less a b =
     (if cabinNumber a \<noteq> cabinNumber b then cabinNumber a <s cabinNumber b
      else if destinationPort a \<noteq> destinationPort b then destinationPort a < destinationPort b
      else fullName a < fullName b)"

text \<open>\<^verbatim>\<open>operator>\<close>, \<^verbatim>\<open>operator<=\<close> and \<^verbatim>\<open>operator>=\<close>, each written through \<^verbatim>\<open>operator<\<close>.\<close>

definition passenger_greater :: "Passenger \<Rightarrow> Passenger \<Rightarrow> bool" where
  "passenger_greater a b = passenger_less b a"

definition passenger_le :: "Passenger \<Rightarrow> Passenger \<Rightarrow> bool" where
  "passenger_le a b = (\<not> passenger_less b a)"

definition passenger_ge :: "Passenger \<Rightarrow> Passenger \<Rightarrow> bool" where
  "passenger_ge a b = (\<not> passenger_less a b)"

text \<open>
  The three compared fields as one value of a linear order (the lexicographic product):
  a device of the proofs, not of the program.
\<close>

definition order_key :: "Passenger \<Rightarrow> int \<times> string \<times> string" where
  "order_key p = (sint (cabinNumber p), destinationPort p, fullName p)"

lemma passenger_less_key: "passenger_less a b \<longleftrightarrow> order_key a < order_key b"
  by (auto simp: passenger_less_def order_key_def less_prod_def word_sless_alt
        word_eq_iff_signed [where ?'a = int])

lemma passenger_le_key: "passenger_le a b \<longleftrightarrow> order_key a \<le> order_key b"
  by (simp add: passenger_le_def passenger_less_key not_less)

section \<open>Checked vector accesses\<close>

text \<open>
  The ways a run ends other than by returning. \<open>InvalidArgument\<close> and \<open>OutOfRange\<close> are the
  exceptions \<^verbatim>\<open>std::invalid_argument\<close> and \<^verbatim>\<open>std::out_of_range\<close> of \<^verbatim>\<open>std::stoi\<close>; the program
  catches neither, so either ends the process. \<open>OutOfBounds\<close> is an access outside a
  vector: \<^verbatim>\<open>std::vector::operator[]\<close> and the iterators do not check, nothing is raised, and
  C++ leaves what follows such an access undefined. \<open>Inl OutOfBounds\<close> says that the run made
  such an access and that the model follows it no further.
\<close>

datatype error = OutOfBounds | InvalidArgument | OutOfRange

text \<open>
  \<^verbatim>\<open>arr[k]\<close> as a read and as a write. With every access checked, "no access leaves the
  vector" is the statement that a function returns \<open>Inr\<close>. A negative \<^verbatim>\<open>int\<close> or \<^verbatim>\<open>long\<close>
  index converts to a huge \<^verbatim>\<open>size_t\<close> and is outside every vector. The counters of the
  sorts (\<^verbatim>\<open>int\<close> in \<^verbatim>\<open>selectionSort\<close> and \<^verbatim>\<open>insertionSort\<close>, \<^verbatim>\<open>long\<close> in \<^verbatim>\<open>quickSortR\<close>) are
  modelled as unbounded integers: they stay between \<open>-1\<close> and the size of the vector, so
  they do not wrap on a vector of at most \<open>2^31 - 1\<close> records (the driver sorts at most
  100000).
\<close>

definition vec_at :: "'a list \<Rightarrow> int \<Rightarrow> error + 'a" where
  "vec_at arr k =
     (if 0 \<le> k \<and> k < int (length arr) then Inr (arr ! nat k) else Inl OutOfBounds)"

definition vec_set :: "'a list \<Rightarrow> int \<Rightarrow> 'a \<Rightarrow> error + 'a list" where
  "vec_set arr k v =
     (if 0 \<le> k \<and> k < int (length arr) then Inr (arr[nat k := v]) else Inl OutOfBounds)"

text \<open>\<^verbatim>\<open>std::swap(arr[a], arr[b])\<close>.\<close>

definition std_swap :: "'a list \<Rightarrow> int \<Rightarrow> int \<Rightarrow> error + 'a list" where
  "std_swap arr a b =
     (case vec_at arr a of
        Inl e \<Rightarrow> Inl e
      | Inr x \<Rightarrow>
          (case vec_at arr b of
             Inl e \<Rightarrow> Inl e
           | Inr y \<Rightarrow> Inr (arr[nat a := y, nat b := x])))"

section \<open>Selection sort\<close>

text \<open>
  The inner loop of \<^verbatim>\<open>selectionSort\<close>:
  \<^verbatim>\<open>for (int j = i + 1; j < n; ++j) if (arr[j] < arr[minIndex]) minIndex = j;\<close>
  started with \<open>minIndex = i\<close> and \<open>j = i + 1\<close>.
\<close>

function sel_inner :: "Passenger list \<Rightarrow> int \<Rightarrow> int \<Rightarrow> int \<Rightarrow> error + int" where
  "sel_inner arr n minIndex j =
     (if j < n then
        (case vec_at arr j of
           Inl e \<Rightarrow> Inl e
         | Inr aj \<Rightarrow>
             (case vec_at arr minIndex of
                Inl e \<Rightarrow> Inl e
              | Inr am \<Rightarrow>
                  sel_inner arr n (if passenger_less aj am then j else minIndex) (j + 1)))
      else Inr minIndex)"
  by pat_completeness auto
termination
  by (relation "measure (\<lambda>(arr, n, minIndex, j). nat (n - j))") auto

declare sel_inner.simps [simp del]

text \<open>The outer loop: \<^verbatim>\<open>for (int i = 0; i < n - 1; ++i) { ... }\<close>.\<close>

function sel_outer :: "Passenger list \<Rightarrow> int \<Rightarrow> int \<Rightarrow> error + Passenger list" where
  "sel_outer arr n i =
     (if i < n - 1 then
        (case sel_inner arr n i (i + 1) of
           Inl e \<Rightarrow> Inl e
         | Inr minIndex \<Rightarrow>
             (if minIndex \<noteq> i then
                (case std_swap arr i minIndex of
                   Inl e \<Rightarrow> Inl e
                 | Inr arr' \<Rightarrow> sel_outer arr' n (i + 1))
              else sel_outer arr n (i + 1)))
      else Inr arr)"
  by pat_completeness auto
termination
  by (relation "measure (\<lambda>(arr, n, i). nat (n - i))") auto

declare sel_outer.simps [simp del]

definition selectionSort :: "Passenger list \<Rightarrow> error + Passenger list" where
  "selectionSort arr = sel_outer arr (int (length arr)) 0"

section \<open>Insertion sort\<close>

text \<open>
  The inner loop of \<^verbatim>\<open>insertionSort\<close>:
  \<^verbatim>\<open>while (j >= 0 && arr[j] > key) { arr[j + 1] = arr[j]; --j; }\<close>.
  It returns the vector and the final \<open>j\<close>.
\<close>

function ins_inner :: "Passenger list \<Rightarrow> Passenger \<Rightarrow> int \<Rightarrow> error + (Passenger list \<times> int)" where
  "ins_inner arr key j =
     (if j \<ge> 0 then
        (case vec_at arr j of
           Inl e \<Rightarrow> Inl e
         | Inr aj \<Rightarrow>
             (if passenger_greater aj key then
                (case vec_set arr (j + 1) aj of
                   Inl e \<Rightarrow> Inl e
                 | Inr arr' \<Rightarrow> ins_inner arr' key (j - 1))
              else Inr (arr, j)))
      else Inr (arr, j))"
  by pat_completeness auto
termination
  by (relation "measure (\<lambda>(arr, key, j). nat (j + 1))") auto

declare ins_inner.simps [simp del]

lemma ins_inner_length:
  "ins_inner arr key j = Inr (arr', j') \<Longrightarrow> length arr' = length arr"
proof (induction arr key j arbitrary: arr' j' rule: ins_inner.induct)
  case (1 arr key j)
  show ?case
  proof (cases "0 \<le> j \<and> j < int (length arr) \<and> passenger_greater (arr ! nat j) key")
    case False
    with "1.prems" show ?thesis
      by (subst (asm) ins_inner.simps) (auto simp: vec_at_def split: if_splits)
  next
    case True
    then have at: "vec_at arr j = Inr (arr ! nat j)"
      by (simp add: vec_at_def)
    from True have st: "vec_set arr (j + 1) (arr ! nat j) = Inr (arr[nat (j + 1) := arr ! nat j])
        \<or> vec_set arr (j + 1) (arr ! nat j) = Inl OutOfBounds"
      by (simp add: vec_set_def)
    from "1.prems" True at have
      "vec_set arr (j + 1) (arr ! nat j) = Inr (arr[nat (j + 1) := arr ! nat j])"
      and rec: "ins_inner (arr[nat (j + 1) := arr ! nat j]) key (j - 1) = Inr (arr', j')"
      using st by (subst (asm) ins_inner.simps, auto)+
    with "1.IH" [of "arr ! nat j" "arr[nat (j + 1) := arr ! nat j]" arr' j'] True at
    show ?thesis by simp
  qed
qed

text \<open>
  The outer loop: \<^verbatim>\<open>for (int i = 1; i < arr.size(); ++i) { Passenger key = arr[i]; ... arr[j + 1] = key; }\<close>.
\<close>

function ins_outer :: "Passenger list \<Rightarrow> int \<Rightarrow> error + Passenger list" where
  "ins_outer arr i =
     (if i < int (length arr) then
        (case vec_at arr i of
           Inl e \<Rightarrow> Inl e
         | Inr key \<Rightarrow>
             (case ins_inner arr key (i - 1) of
                Inl e \<Rightarrow> Inl e
              | Inr (arr', j) \<Rightarrow>
                  (case vec_set arr' (j + 1) key of
                     Inl e \<Rightarrow> Inl e
                   | Inr arr'' \<Rightarrow> ins_outer arr'' (i + 1))))
      else Inr arr)"
  by pat_completeness auto
termination
proof (relation "measure (\<lambda>(arr, i). nat (int (length arr) - i))", goal_cases)
  case 1
  show ?case by simp
next
  case (2 arr i key x arr' j arr'')
  have "length arr' = length arr"
    using 2(3,4) ins_inner_length [of arr key "i - 1" arr' j] by simp
  moreover from 2(5) have "length arr'' = length arr'"
    by (auto simp: vec_set_def split: if_splits)
  ultimately show ?case using 2(1) by simp
qed

declare ins_outer.simps [simp del]

definition insertionSort :: "Passenger list \<Rightarrow> error + Passenger list" where
  "insertionSort arr = ins_outer arr 1"

section \<open>Quicksort\<close>

text \<open>The first inner loop of \<^verbatim>\<open>quickSortR\<close>: \<^verbatim>\<open>while (arr[i] < p) i++;\<close>.\<close>

function scan_up :: "Passenger list \<Rightarrow> Passenger \<Rightarrow> int \<Rightarrow> error + int" where
  "scan_up arr p i =
     (case vec_at arr i of
        Inl e \<Rightarrow> Inl e
      | Inr ai \<Rightarrow> (if passenger_less ai p then scan_up arr p (i + 1) else Inr i))"
  by pat_completeness auto
termination
  by (relation "measure (\<lambda>(arr, p, i). nat (int (length arr) - i))")
     (auto simp: vec_at_def split: if_splits)

declare scan_up.simps [simp del]

text \<open>The second inner loop: \<^verbatim>\<open>while (arr[j] > p) j--;\<close>.\<close>

function scan_down :: "Passenger list \<Rightarrow> Passenger \<Rightarrow> int \<Rightarrow> error + int" where
  "scan_down arr p j =
     (case vec_at arr j of
        Inl e \<Rightarrow> Inl e
      | Inr aj \<Rightarrow> (if passenger_greater aj p then scan_down arr p (j - 1) else Inr j))"
  by pat_completeness auto
termination
  by (relation "measure (\<lambda>(arr, p, j). nat (j + 1))")
     (auto simp: vec_at_def split: if_splits)

declare scan_down.simps [simp del]

lemma scan_up_ge: "scan_up arr p i = Inr i' \<Longrightarrow> i \<le> i'"
proof (induction arr p i rule: scan_up.induct)
  case (1 arr p i)
  show ?case
  proof (cases "vec_at arr i")
    case (Inl e)
    with "1.prems" show ?thesis
      by (subst (asm) scan_up.simps) simp
  next
    case (Inr ai)
    show ?thesis
    proof (cases "passenger_less ai p")
      case True
      with Inr "1.prems" have "scan_up arr p (i + 1) = Inr i'"
        by (subst (asm) scan_up.simps) simp
      with "1.IH" [OF Inr True] show ?thesis by simp
    next
      case False
      with Inr "1.prems" show ?thesis
        by (subst (asm) scan_up.simps) simp
    qed
  qed
qed

lemma scan_down_le: "scan_down arr p j = Inr j' \<Longrightarrow> j' \<le> j"
proof (induction arr p j rule: scan_down.induct)
  case (1 arr p j)
  show ?case
  proof (cases "vec_at arr j")
    case (Inl e)
    with "1.prems" show ?thesis
      by (subst (asm) scan_down.simps) simp
  next
    case (Inr aj)
    show ?thesis
    proof (cases "passenger_greater aj p")
      case True
      with Inr "1.prems" have "scan_down arr p (j - 1) = Inr j'"
        by (subst (asm) scan_down.simps) simp
      with "1.IH" [OF Inr True] show ?thesis by simp
    next
      case False
      with Inr "1.prems" show ?thesis
        by (subst (asm) scan_down.simps) simp
    qed
  qed
qed

text \<open>
  The partition loop:
  \<^verbatim>\<open>do { while (arr[i] < p) i++; while (arr[j] > p) j--;
       if (i <= j) { std::swap(arr[i], arr[j]); i++; j--; } } while (i <= j);\<close>
  It returns the vector and the final \<open>i\<close> and \<open>j\<close>.
\<close>

function partition_loop ::
  "Passenger list \<Rightarrow> Passenger \<Rightarrow> int \<Rightarrow> int \<Rightarrow> error + (Passenger list \<times> int \<times> int)" where
  "partition_loop arr p i j =
     (case scan_up arr p i of
        Inl e \<Rightarrow> Inl e
      | Inr i1 \<Rightarrow>
          (case scan_down arr p j of
             Inl e \<Rightarrow> Inl e
           | Inr j1 \<Rightarrow>
               (case (if i1 \<le> j1 then
                        (case std_swap arr i1 j1 of
                           Inl e \<Rightarrow> Inl e
                         | Inr arr' \<Rightarrow> Inr (arr', i1 + 1, j1 - 1))
                      else Inr (arr, i1, j1)) of
                  Inl e \<Rightarrow> Inl e
                | Inr (arr2, i2, j2) \<Rightarrow>
                    (if i2 \<le> j2 then partition_loop arr2 p i2 j2 else Inr (arr2, i2, j2)))))"
  by pat_completeness auto
termination
proof (relation "measure (\<lambda>(arr, p, i, j). nat (j - i + 1))", goal_cases)
  case 1
  show ?case by simp
next
  case (2 arr p i j i1 j1 x arr2 y i2 j2)
  from 2(1) have "i \<le> i1" by (rule scan_up_ge)
  moreover from 2(2) have "j1 \<le> j" by (rule scan_down_le)
  moreover from 2(3,4,5,6) have "i2 = i1 + 1 \<and> j2 = j1 - 1"
    by (auto split: if_splits sum.splits)
  ultimately show ?case using 2(6) by simp
qed

declare partition_loop.simps [simp del]

text \<open>
  What the two scans and the partition loop do when a sentinel bounds each scan: every
  access stays inside the vector, the loop ends with \<open>j < i\<close>, everything left of \<open>i\<close>
  is not greater than the pivot and everything right of \<open>j\<close> is not less.
\<close>

lemma scan_up_spec:
  assumes "0 \<le> i" "i \<le> k" "k < int (length arr)" "\<not> passenger_less (arr ! nat k) p"
  shows "\<exists>i1. scan_up arr p i = Inr i1 \<and> i \<le> i1 \<and> i1 \<le> k
           \<and> \<not> passenger_less (arr ! nat i1) p
           \<and> (\<forall>m. i \<le> m \<and> m < i1 \<longrightarrow> passenger_less (arr ! nat m) p)"
  using assms
proof (induction arr p i rule: scan_up.induct)
  case (1 arr p i)
  from "1.prems" have at: "vec_at arr i = Inr (arr ! nat i)"
    by (simp add: vec_at_def)
  show ?case
  proof (cases "passenger_less (arr ! nat i) p")
    case False
    with at have "scan_up arr p i = Inr i"
      by (subst scan_up.simps) simp
    with False "1.prems" show ?thesis by auto
  next
    case True
    with "1.prems" have "i \<noteq> k" by auto
    with "1.prems" have le: "i + 1 \<le> k" by simp
    from "1.IH" [OF at True _ le "1.prems"(3,4)] "1.prems"(1)
    obtain i1 where r: "scan_up arr p (i + 1) = Inr i1" "i + 1 \<le> i1" "i1 \<le> k"
      "\<not> passenger_less (arr ! nat i1) p"
      "\<forall>m. i + 1 \<le> m \<and> m < i1 \<longrightarrow> passenger_less (arr ! nat m) p"
      by auto
    from at True r(1) have "scan_up arr p i = Inr i1"
      by (subst scan_up.simps) simp
    moreover have "passenger_less (arr ! nat m) p" if "i \<le> m" "m < i1" for m
    proof (cases "m = i")
      case True
      with \<open>passenger_less (arr ! nat i) p\<close> show ?thesis by simp
    next
      case False
      with that r(5) show ?thesis by simp
    qed
    ultimately show ?thesis using r(2,3,4) by auto
  qed
qed

lemma scan_down_spec:
  assumes "0 \<le> k" "k \<le> j" "j < int (length arr)" "\<not> passenger_greater (arr ! nat k) p"
  shows "\<exists>j1. scan_down arr p j = Inr j1 \<and> k \<le> j1 \<and> j1 \<le> j
           \<and> \<not> passenger_greater (arr ! nat j1) p
           \<and> (\<forall>m. j1 < m \<and> m \<le> j \<longrightarrow> passenger_greater (arr ! nat m) p)"
  using assms
proof (induction arr p j rule: scan_down.induct)
  case (1 arr p j)
  from "1.prems" have at: "vec_at arr j = Inr (arr ! nat j)"
    by (simp add: vec_at_def)
  show ?case
  proof (cases "passenger_greater (arr ! nat j) p")
    case False
    with at have "scan_down arr p j = Inr j"
      by (subst scan_down.simps) simp
    with False "1.prems" show ?thesis by auto
  next
    case True
    with "1.prems" have "j \<noteq> k" by auto
    with "1.prems" have le: "k \<le> j - 1" by simp
    from "1.IH" [OF at True "1.prems"(1) le _ "1.prems"(4)] "1.prems"(3)
    obtain j1 where r: "scan_down arr p (j - 1) = Inr j1" "k \<le> j1" "j1 \<le> j - 1"
      "\<not> passenger_greater (arr ! nat j1) p"
      "\<forall>m. j1 < m \<and> m \<le> j - 1 \<longrightarrow> passenger_greater (arr ! nat m) p"
      by auto
    from at True r(1) have "scan_down arr p j = Inr j1"
      by (subst scan_down.simps) simp
    moreover have "passenger_greater (arr ! nat m) p" if "j1 < m" "m \<le> j" for m
    proof (cases "m = j")
      case True
      with \<open>passenger_greater (arr ! nat j) p\<close> show ?thesis by simp
    next
      case False
      with that r(5) show ?thesis by simp
    qed
    ultimately show ?thesis using r(2,3,4) by auto
  qed
qed


lemma passenger_less_asym: "passenger_less a b \<Longrightarrow> \<not> passenger_less b a"
  by (simp add: passenger_less_key)

lemma swap_nth:
  assumes "0 \<le> a" "0 \<le> b" "a < int (length arr)" "b < int (length arr)"
    and "0 \<le> k" "k < int (length arr)"
  shows "(arr[nat a := arr ! nat b, nat b := arr ! nat a]) ! nat k =
           (if k = b then arr ! nat a else if k = a then arr ! nat b else arr ! nat k)"
  using assms by (auto simp: nth_list_update)

lemma std_swap_ok:
  assumes "0 \<le> a" "0 \<le> b" "a < int (length arr)" "b < int (length arr)"
  shows "std_swap arr a b = Inr (arr[nat a := arr ! nat b, nat b := arr ! nat a])"
  using assms by (simp add: std_swap_def vec_at_def)

lemma mset_swap_int:
  assumes "0 \<le> a" "0 \<le> b" "a < int (length arr)" "b < int (length arr)"
  shows "mset (arr[nat a := arr ! nat b, nat b := arr ! nat a]) = mset arr"
  using assms by (simp add: mset_swap)

lemma partition_loop_spec:
  assumes "0 \<le> i" "j < int (length arr)"
    and "\<exists>k. i \<le> k \<and> k < int (length arr) \<and> \<not> passenger_less (arr ! nat k) p"
    and "\<exists>k. 0 \<le> k \<and> k \<le> j \<and> \<not> passenger_greater (arr ! nat k) p"
    and "\<forall>k. 0 \<le> k \<and> k < i \<longrightarrow> \<not> passenger_greater (arr ! nat k) p"
    and "\<forall>k. j < k \<and> k < int (length arr) \<longrightarrow> \<not> passenger_less (arr ! nat k) p"
  shows "\<exists>arr' i' j'. partition_loop arr p i j = Inr (arr', i', j')
           \<and> length arr' = length arr \<and> mset arr' = mset arr
           \<and> j' < i' \<and> i \<le> i' \<and> j' \<le> j \<and> i' \<le> int (length arr) \<and> - 1 \<le> j'
           \<and> (\<forall>k. 0 \<le> k \<and> k < i' \<longrightarrow> \<not> passenger_greater (arr' ! nat k) p)
           \<and> (\<forall>k. j' < k \<and> k < int (length arr) \<longrightarrow> \<not> passenger_less (arr' ! nat k) p)
           \<and> ((\<exists>k. i \<le> k \<and> k \<le> j \<and> \<not> passenger_less (arr ! nat k) p
                    \<and> \<not> passenger_greater (arr ! nat k) p) \<longrightarrow> i < i' \<and> j' < j)"
  using assms
proof (induction "nat (j - i + 1)" arbitrary: arr i j rule: less_induct)
  case less
  let ?n = "int (length arr)"
  from less.prems(3) obtain ku where ku: "i \<le> ku" "ku < ?n" "\<not> passenger_less (arr ! nat ku) p"
    by auto
  from less.prems(4) obtain kd where kd: "0 \<le> kd" "kd \<le> j" "\<not> passenger_greater (arr ! nat kd) p"
    by auto
  from scan_up_spec [OF less.prems(1) ku] obtain i1 where
    up: "scan_up arr p i = Inr i1" "i \<le> i1" "i1 \<le> ku" "\<not> passenger_less (arr ! nat i1) p"
      "\<forall>m. i \<le> m \<and> m < i1 \<longrightarrow> passenger_less (arr ! nat m) p"
    by auto
  from scan_down_spec [OF kd(1,2) less.prems(2) kd(3)] obtain j1 where
    down: "scan_down arr p j = Inr j1" "kd \<le> j1" "j1 \<le> j" "\<not> passenger_greater (arr ! nat j1) p"
      "\<forall>m. j1 < m \<and> m \<le> j \<longrightarrow> passenger_greater (arr ! nat m) p"
    by auto
  have i1: "0 \<le> i1" "i1 < ?n" using up(2,3) ku(2) less.prems(1) by auto
  have j1: "0 \<le> j1" "j1 < ?n" using down(2,3) kd(1) less.prems(2) by auto
  have left_old: "\<not> passenger_greater (arr ! nat k) p" if "0 \<le> k" "k < i1" for k
  proof (cases "k < i")
    case True
    with that less.prems(5) show ?thesis by simp
  next
    case False
    with that up(5) have "passenger_less (arr ! nat k) p" by simp
    then show ?thesis by (simp add: passenger_greater_def passenger_less_asym)
  qed
  have right_old: "\<not> passenger_less (arr ! nat k) p" if "j1 < k" "k < ?n" for k
  proof (cases "j < k")
    case True
    with that less.prems(6) show ?thesis by simp
  next
    case False
    with that down(5) have "passenger_greater (arr ! nat k) p" by simp
    then show ?thesis by (simp add: passenger_greater_def passenger_less_asym)
  qed
  have mid: "i1 \<le> k \<and> k \<le> j1"
    if "i \<le> k" "k \<le> j" "\<not> passenger_less (arr ! nat k) p" "\<not> passenger_greater (arr ! nat k) p" for k
  proof -
    have "i1 \<le> k"
    proof (rule ccontr)
      assume "\<not> i1 \<le> k"
      with that(1) up(5) have "passenger_less (arr ! nat k) p" by simp
      with that(3) show False by simp
    qed
    moreover have "k \<le> j1"
    proof (rule ccontr)
      assume "\<not> k \<le> j1"
      with that(2) down(5) have "passenger_greater (arr ! nat k) p" by simp
      with that(4) show False by simp
    qed
    ultimately show ?thesis by simp
  qed
  show ?case
  proof (cases "i1 \<le> j1")
    case False
    have res: "partition_loop arr p i j = Inr (arr, i1, j1)"
      using up(1) down(1) False by (subst partition_loop.simps) simp
    have nomid: "(\<exists>k. i \<le> k \<and> k \<le> j \<and> \<not> passenger_less (arr ! nat k) p
                    \<and> \<not> passenger_greater (arr ! nat k) p) \<longrightarrow> i < i1 \<and> j1 < j"
      using mid False by force
    have "j1 < i1" "i1 \<le> ?n" "- 1 \<le> j1" using False i1 j1 by simp_all
    with res up(2) down(3) left_old right_old nomid show ?thesis
      by (intro exI [of _ arr] exI [of _ i1] exI [of _ j1] conjI) auto
  next
    case True
    define arr' where "arr' = arr[nat i1 := arr ! nat j1, nat j1 := arr ! nat i1]"
    have sw: "std_swap arr i1 j1 = Inr arr'"
      unfolding arr'_def using i1 j1 by (intro std_swap_ok) auto
    have len: "length arr' = length arr" by (simp add: arr'_def)
    have ms: "mset arr' = mset arr"
      unfolding arr'_def using i1 j1 by (intro mset_swap_int) auto
    have nth': "arr' ! nat k = (if k = j1 then arr ! nat i1 else if k = i1 then arr ! nat j1 else arr ! nat k)"
      if "0 \<le> k" "k < ?n" for k
      unfolding arr'_def using swap_nth [OF i1(1) j1(1) i1(2) j1(2) that] .
    have left_new: "\<not> passenger_greater (arr' ! nat k) p" if "0 \<le> k" "k < i1 + 1" for k
    proof -
      from that i1 have kn: "k < ?n" by simp
      show ?thesis
      proof (cases "k = i1")
        case True
        with nth' [OF that(1) kn] down(4) show ?thesis by (simp split: if_splits)
      next
        case False
        with that have "k < i1" by simp
        with nth' [OF that(1) kn] left_old [OF that(1)] True show ?thesis by simp
      qed
    qed
    have right_new: "\<not> passenger_less (arr' ! nat k) p" if "j1 - 1 < k" "k < ?n" for k
    proof -
      from that j1 have k0: "0 \<le> k" by simp
      show ?thesis
      proof (cases "k = j1")
        case True
        with nth' [OF k0 that(2)] up(4) show ?thesis by simp
      next
        case False
        with that have "j1 < k" by simp
        with nth' [OF k0 that(2)] right_old [OF _ that(2)] True show ?thesis by simp
      qed
    qed
    show ?thesis
    proof (cases "i1 + 1 \<le> j1 - 1")
      case False
      have res: "partition_loop arr p i j = Inr (arr', i1 + 1, j1 - 1)"
        using up(1) down(1) True sw False by (subst partition_loop.simps) simp
      from res len ms False up(2) down(3) i1 j1 left_new right_new show ?thesis
        by simp
    next
      case rec: True
      have eq: "partition_loop arr p i j = partition_loop arr' p (i1 + 1) (j1 - 1)"
        using up(1) down(1) True sw rec by (subst partition_loop.simps) simp
      have m: "nat (j1 - 1 - (i1 + 1) + 1) < nat (j - i + 1)"
        using rec up(2) down(3) by simp
      have p1: "0 \<le> i1 + 1" using i1 by simp
      have p2: "j1 - 1 < int (length arr')" using j1 len by simp
      have p3: "\<exists>k. i1 + 1 \<le> k \<and> k < int (length arr') \<and> \<not> passenger_less (arr' ! nat k) p"
      proof (intro exI conjI)
        show "i1 + 1 \<le> j1" using rec by simp
        show "j1 < int (length arr')" using j1 len by simp
        show "\<not> passenger_less (arr' ! nat j1) p"
          using nth' [OF j1] up(4) by simp
      qed
      have p4: "\<exists>k. 0 \<le> k \<and> k \<le> j1 - 1 \<and> \<not> passenger_greater (arr' ! nat k) p"
      proof (intro exI conjI)
        show "0 \<le> i1" by fact
        show "i1 \<le> j1 - 1" using rec by simp
        show "\<not> passenger_greater (arr' ! nat i1) p"
          using nth' [OF i1] down(4) rec by simp
      qed
      have p5: "\<forall>k. 0 \<le> k \<and> k < i1 + 1 \<longrightarrow> \<not> passenger_greater (arr' ! nat k) p"
        using left_new by blast
      have p6: "\<forall>k. j1 - 1 < k \<and> k < int (length arr') \<longrightarrow> \<not> passenger_less (arr' ! nat k) p"
        using right_new len by simp
      from less.hyps [OF m p1 p2 p3 p4 p5 p6] obtain arr2 i2 j2 where
        r: "partition_loop arr' p (i1 + 1) (j1 - 1) = Inr (arr2, i2, j2)"
          "length arr2 = length arr'" "mset arr2 = mset arr'" "j2 < i2" "i1 + 1 \<le> i2"
          "j2 \<le> j1 - 1" "i2 \<le> int (length arr')" "- 1 \<le> j2"
          "\<forall>k. 0 \<le> k \<and> k < i2 \<longrightarrow> \<not> passenger_greater (arr2 ! nat k) p"
          "\<forall>k. j2 < k \<and> k < int (length arr') \<longrightarrow> \<not> passenger_less (arr2 ! nat k) p"
        by blast
      from eq r len ms up(2) down(3) show ?thesis
        by simp
    qed
  qed
qed


text \<open>
  The two copies of \<^verbatim>\<open>quickSortR\<close>, \<^verbatim>\<open>std::vector<Passenger>(arr.begin() + a, arr.begin() + b)\<close>,
  and \<^verbatim>\<open>std::copy(src.begin(), src.end(), dst.begin() + off)\<close>. Neither checks its iterators.
  In \<^verbatim>\<open>quickSortR\<close> every range lies inside the vector (\<open>quickSortR_fault_only_empty\<close> below:
  the only fault of \<^verbatim>\<open>quickSortR\<close> is the pivot read on the empty vector), so the branch
  \<open>Inl OutOfBounds\<close> of the two definitions is never taken there.
\<close>

definition vec_range :: "'a list \<Rightarrow> int \<Rightarrow> int \<Rightarrow> error + 'a list" where
  "vec_range arr a b =
     (if 0 \<le> a \<and> a \<le> b \<and> b \<le> int (length arr)
      then Inr (take (nat (b - a)) (drop (nat a) arr)) else Inl OutOfBounds)"

definition std_copy :: "'a list \<Rightarrow> 'a list \<Rightarrow> int \<Rightarrow> error + 'a list" where
  "std_copy src dst off =
     (if 0 \<le> off \<and> off + int (length src) \<le> int (length dst)
      then Inr (take (nat off) dst @ src @ drop (nat off + length src) dst)
      else Inl OutOfBounds)"

lemma vec_range_length: "vec_range arr a b = Inr r \<Longrightarrow> length r = nat (b - a)"
  by (auto simp: vec_range_def split: if_splits)

lemma std_copy_length: "std_copy src dst off = Inr r \<Longrightarrow> length r = length dst"
  by (auto simp: std_copy_def split: if_splits)

lemma passenger_less_irrefl: "\<not> passenger_less a a"
  by (simp add: passenger_less_key)

text \<open>The first partition of \<^verbatim>\<open>quickSortR\<close>: the pivot itself is the sentinel of both scans.\<close>

lemma first_partition:
  assumes "vec_at arr (int (length arr div 2)) = Inr p"
  shows "\<exists>arr1 i j. partition_loop arr p 0 (int (length arr) - 1) = Inr (arr1, i, j)
           \<and> length arr1 = length arr \<and> mset arr1 = mset arr
           \<and> j < i \<and> 1 \<le> i \<and> j \<le> int (length arr) - 2 \<and> i \<le> int (length arr) \<and> - 1 \<le> j
           \<and> (\<forall>k. 0 \<le> k \<and> k < i \<longrightarrow> \<not> passenger_greater (arr1 ! nat k) p)
           \<and> (\<forall>k. j < k \<and> k < int (length arr) \<longrightarrow> \<not> passenger_less (arr1 ! nat k) p)"
proof -
  let ?m = "int (length arr div 2)"
  from assms have m: "?m < int (length arr)" and p: "arr ! nat ?m = p"
    by (auto simp: vec_at_def split: if_splits)
  have m0: "0 \<le> ?m" by simp
  have mj: "?m \<le> int (length arr) - 1" using m by simp
  have np: "\<not> passenger_less (arr ! nat ?m) p" "\<not> passenger_greater (arr ! nat ?m) p"
    using p by (simp_all add: passenger_greater_def passenger_less_irrefl)
  have a3: "\<exists>k. 0 \<le> k \<and> k < int (length arr) \<and> \<not> passenger_less (arr ! nat k) p"
    using m0 m np(1) by blast
  have a4: "\<exists>k. 0 \<le> k \<and> k \<le> int (length arr) - 1 \<and> \<not> passenger_greater (arr ! nat k) p"
    using m0 mj np(2) by blast
  have mid: "\<exists>k. 0 \<le> k \<and> k \<le> int (length arr) - 1 \<and> \<not> passenger_less (arr ! nat k) p
                    \<and> \<not> passenger_greater (arr ! nat k) p"
    using m0 mj np by blast
  have a1: "(0::int) \<le> 0" by simp
  have a2: "int (length arr) - 1 < int (length arr)" by simp
  have a5: "\<forall>k. 0 \<le> k \<and> k < 0 \<longrightarrow> \<not> passenger_greater (arr ! nat k) p" by auto
  have a6: "\<forall>k. int (length arr) - 1 < k \<and> k < int (length arr) \<longrightarrow> \<not> passenger_less (arr ! nat k) p"
    by auto
  from partition_loop_spec [OF a1 a2 a3 a4 a5 a6]
  obtain arr1 i j where
    r: "partition_loop arr p 0 (int (length arr) - 1) = Inr (arr1, i, j)"
      "length arr1 = length arr" "mset arr1 = mset arr" "j < i" "i \<le> int (length arr)" "- 1 \<le> j"
      "\<forall>k. 0 \<le> k \<and> k < i \<longrightarrow> \<not> passenger_greater (arr1 ! nat k) p"
      "\<forall>k. j < k \<and> k < int (length arr) \<longrightarrow> \<not> passenger_less (arr1 ! nat k) p"
      "(\<exists>k. 0 \<le> k \<and> k \<le> int (length arr) - 1 \<and> \<not> passenger_less (arr ! nat k) p
                    \<and> \<not> passenger_greater (arr ! nat k) p) \<longrightarrow> 0 < i \<and> j < int (length arr) - 1"
    by blast
  from r(9) mid have "1 \<le> i" "j \<le> int (length arr) - 2" by auto
  with r(1-8) show ?thesis by blast
qed

text \<open>
  \<^verbatim>\<open>quickSortR\<close>. \<^verbatim>\<open>long i = 0, j = arr.size() - 1;\<close> gives \<open>j = -1\<close> on the empty vector (the
  unsigned \<open>0 - 1\<close> converted to \<^verbatim>\<open>long\<close>), and \<^verbatim>\<open>Passenger p = arr[arr.size() >> 1];\<close>
  reads \<^verbatim>\<open>arr[0]\<close> there. Each recursive call sorts a fresh copy (\<open>left\<close>, \<open>right\<close>) that
  \<^verbatim>\<open>std::copy\<close> then writes back. The comparison \<^verbatim>\<open>i < arr.size()\<close> converts \<open>i\<close>, which is
  never negative, to \<^verbatim>\<open>size_t\<close>.
\<close>

function quickSortR :: "Passenger list \<Rightarrow> error + Passenger list" where
  "quickSortR arr =
     (case vec_at arr (int (length arr div 2)) of
        Inl e \<Rightarrow> Inl e
      | Inr p \<Rightarrow>
          (case partition_loop arr p 0 (int (length arr) - 1) of
             Inl e \<Rightarrow> Inl e
           | Inr (arr1, i, j) \<Rightarrow>
               (case (if j > 0 then
                        (case vec_range arr1 0 (j + 1) of
                           Inl e \<Rightarrow> Inl e
                         | Inr left \<Rightarrow>
                             (case quickSortR left of
                                Inl e \<Rightarrow> Inl e
                              | Inr left' \<Rightarrow> std_copy left' arr1 0))
                      else Inr arr1) of
                  Inl e \<Rightarrow> Inl e
                | Inr arr2 \<Rightarrow>
                    (if i < int (length arr2) then
                       (case vec_range arr2 i (int (length arr2)) of
                          Inl e \<Rightarrow> Inl e
                        | Inr right \<Rightarrow>
                            (case quickSortR right of
                               Inl e \<Rightarrow> Inl e
                             | Inr right' \<Rightarrow> std_copy right' arr2 i))
                     else Inr arr2))))"
  by pat_completeness auto
termination
proof (relation "measure length", goal_cases)
  case 1
  show ?case by simp
next
  case (2 arr p ba arr1 y i j left)
  from 2(2,3,4) have "partition_loop arr p 0 (int (length arr) - 1) = Inr (arr1, i, j)"
    by simp
  with first_partition [OF 2(1)] have "j \<le> int (length arr) - 2"
    by auto
  moreover from 2(6) have "length left = nat (j + 1)"
    by (simp add: vec_range_length)
  ultimately show ?case using 2(5) by simp
next
  case (3 arr p ba arr1 y i j arr2 right)
  from 3(2,3,4) have "partition_loop arr p 0 (int (length arr) - 1) = Inr (arr1, i, j)"
    by simp
  with first_partition [OF 3(1)] have i: "1 \<le> i" and len1: "length arr1 = length arr"
    by auto
  from 3(5) have "length arr2 = length arr1"
    by (auto simp: std_copy_length split: if_splits sum.splits)
  moreover from 3(7) have "length right = nat (int (length arr2) - i)"
    by (simp add: vec_range_length)
  ultimately show ?case using i len1 3(6) by simp
qed

declare quickSortR.simps [simp del]


section \<open>The reference sort\<close>

text \<open>
  \<^verbatim>\<open>std::sort(stdSorted.begin(), stdSorted.end())\<close> is the C++ standard library's sort,
  called with \<^verbatim>\<open>operator<\<close> of the records. The standard promises a sorted permutation when
  the comparison is a strict weak ordering and leaves the order of equivalent elements
  open. The model is one sort that compares by \<^verbatim>\<open>operator<\<close> only: insertion into a sorted
  list.
\<close>

fun ref_insert :: "Passenger \<Rightarrow> Passenger list \<Rightarrow> Passenger list" where
  "ref_insert x [] = [x]"
| "ref_insert x (y # ys) = (if passenger_less x y then x # y # ys else y # ref_insert x ys)"

definition std_sort :: "Passenger list \<Rightarrow> Passenger list" where
  "std_sort arr = foldr ref_insert arr []"

section \<open>Files\<close>

text \<open>
  A file system maps a path to the bytes of the file. Streams are read and written in
  the byte-for-byte way of a POSIX platform. Opening a file for writing is taken to
  succeed: the spec requires the output directory to exist.
\<close>

type_synonym fsys = "string \<rightharpoonup> string"

text \<open>
  \<^verbatim>\<open>std::getline(stream, str, delim)\<close> of the standard library, on a good stream whose
  unread bytes are \<open>s\<close>. At the end of the stream it fails (\<open>None\<close>); otherwise
  it returns the bytes before the first delimiter and leaves the stream after that
  delimiter, or at its end when there is none.
\<close>

definition getline :: "char \<Rightarrow> string \<Rightarrow> (string \<times> string) option" where
  "getline delim s =
     (if s = [] then None
      else Some (takeWhile (\<lambda>c. c \<noteq> delim) s, drop 1 (dropWhile (\<lambda>c. c \<noteq> delim) s)))"

text \<open>
  One \<^verbatim>\<open>std::getline(ss, field, ',')\<close> of \<^verbatim>\<open>loadPassengers\<close>, whose result the code does not
  test: a failed read leaves the freshly constructed \<open>field\<close> empty and the stream failed.
\<close>

definition get_field :: "string \<Rightarrow> string \<times> string" where
  "get_field s = (case getline (CHR '','') s of None \<Rightarrow> ([], []) | Some (f, r) \<Rightarrow> (f, r))"

text \<open>
  \<^verbatim>\<open>std::stoi\<close> of the standard library (\<^verbatim>\<open>strtol\<close> in base 10, in the C locale): it
  skips white space, reads an optional sign and the longest run of digits, and ignores
  what follows; no digit is \<^verbatim>\<open>std::invalid_argument\<close>, a value outside \<^verbatim>\<open>int\<close> is
  \<^verbatim>\<open>std::out_of_range\<close>.
\<close>

definition isspace :: "char \<Rightarrow> bool" where
  "isspace c = (c = CHR '' '' \<or> c = CHR 0x09 \<or> c = CHR 0x0A \<or> c = CHR 0x0B \<or> c = CHR 0x0C \<or> c = CHR 0x0D)"

definition isdigit :: "char \<Rightarrow> bool" where
  "isdigit c = (48 \<le> (of_char c :: nat) \<and> (of_char c :: nat) \<le> 57)"

definition dec_value :: "string \<Rightarrow> nat" where
  "dec_value ds = foldl (\<lambda>a c. 10 * a + (of_char c - 48)) 0 ds"

definition stoi :: "string \<Rightarrow> error + 32 word" where
  "stoi str =
     (let s1 = dropWhile isspace str;
          neg = (s1 \<noteq> [] \<and> hd s1 = CHR ''-'');
          s2 = (if s1 \<noteq> [] \<and> (hd s1 = CHR ''-'' \<or> hd s1 = CHR ''+'') then tl s1 else s1);
          ds = takeWhile isdigit s2
      in if ds = [] then Inl InvalidArgument
         else let v = (if neg then - int (dec_value ds) else int (dec_value ds))
              in if v < - (2 ^ 31) \<or> 2 ^ 31 \<le> v then Inl OutOfRange else Inr (word_of_int v))"

text \<open>
  The decimal text that \<^verbatim>\<open>operator<<\<close> and \<^verbatim>\<open>std::to_string\<close> of the standard library write
  for an integer.
\<close>

function dec_digits :: "nat \<Rightarrow> string" where
  "dec_digits n =
     (if n < 10 then [char_of (48 + n)] else dec_digits (n div 10) @ [char_of (48 + n mod 10)])"
  by pat_completeness auto
termination
  by (relation "measure id") auto

declare dec_digits.simps [simp del]

definition show_int :: "int \<Rightarrow> string" where
  "show_int v = (if v < 0 then CHR ''-'' # dec_digits (nat (- v)) else dec_digits (nat v))"

section \<open>Loading and saving\<close>

text \<open>The body of the \<^verbatim>\<open>while\<close> loop of \<^verbatim>\<open>loadPassengers\<close>: one line to one record.\<close>

definition parse_row :: "string \<Rightarrow> error + Passenger" where
  "parse_row line =
     (case get_field line of (fullName', r1) \<Rightarrow>
      case get_field r1 of (cabinNumberStr, r2) \<Rightarrow>
      case get_field r2 of (cabinType', r3) \<Rightarrow>
      case get_field r3 of (destinationPort', r4) \<Rightarrow>
        (case stoi cabinNumberStr of
           Inl e \<Rightarrow> Inl e
         | Inr n \<Rightarrow>
             Inr \<lparr>fullName = fullName', cabinNumber = n, cabinType = cabinType',
                  destinationPort = destinationPort'\<rparr>))"

text \<open>\<^verbatim>\<open>while (std::getline(file, line)) { ... passengers.push_back(p); }\<close>\<close>

function read_rows :: "Passenger list \<Rightarrow> string \<Rightarrow> error + Passenger list" where
  "read_rows passengers s =
     (case getline (CHR 0x0A) s of
        None \<Rightarrow> Inr passengers
      | Some (line, rest) \<Rightarrow>
          (case parse_row line of
             Inl e \<Rightarrow> Inl e
           | Inr p \<Rightarrow> read_rows (passengers @ [p]) rest))"
  by pat_completeness auto
termination
proof (relation "measure (\<lambda>(passengers, s). length s)", goal_cases)
  case 1
  show ?case by simp
next
  case (2 passengers s x line rest p)
  then have "s \<noteq> []" and "rest = drop 1 (dropWhile (\<lambda>c. c \<noteq> CHR 0x0A) s)"
    by (auto simp: getline_def split: if_splits)
  moreover have "length (dropWhile (\<lambda>c. c \<noteq> CHR 0x0A) s) \<le> length s"
    by (rule length_dropWhile_le)
  ultimately show ?case by (cases s) auto
qed

declare read_rows.simps [simp del]

text \<open>
  \<^verbatim>\<open>loadPassengers\<close>: a file that cannot be opened gives the empty vector; the first line is
  read and dropped; an exception of \<^verbatim>\<open>std::stoi\<close> leaves the function.
\<close>

definition loadPassengers :: "string \<Rightarrow> fsys \<Rightarrow> error + Passenger list" where
  "loadPassengers filename fs =
     (case fs filename of
        None \<Rightarrow> Inr []
      | Some content \<Rightarrow>
          (case getline (CHR 0x0A) content of
             None \<Rightarrow> read_rows [] []
           | Some (header, rest) \<Rightarrow> read_rows [] rest))"

text \<open>The header line that \<^verbatim>\<open>savePassengers\<close> writes, as the bytes of its UTF-8 literal.\<close>

definition csv_header :: string where
  "csv_header =
     [CHR 0xD0, CHR 0xA4, CHR 0xD0, CHR 0x98, CHR 0xD0, CHR 0x9E, CHR 0x20, CHR 0xD0,
      CHR 0xBF, CHR 0xD0, CHR 0xB0, CHR 0xD1, CHR 0x81, CHR 0xD1, CHR 0x81, CHR 0xD0,
      CHR 0xB0, CHR 0xD0, CHR 0xB6, CHR 0xD0, CHR 0xB8, CHR 0xD1, CHR 0x80, CHR 0xD0,
      CHR 0xB0, CHR 0x2C, CHR 0xD0, CHR 0x9D, CHR 0xD0, CHR 0xBE, CHR 0xD0, CHR 0xBC,
      CHR 0xD0, CHR 0xB5, CHR 0xD1, CHR 0x80, CHR 0x20, CHR 0xD0, CHR 0xBA, CHR 0xD0,
      CHR 0xB0, CHR 0xD1, CHR 0x8E, CHR 0xD1, CHR 0x82, CHR 0xD1, CHR 0x8B, CHR 0x2C,
      CHR 0xD0, CHR 0xA2, CHR 0xD0, CHR 0xB8, CHR 0xD0, CHR 0xBF, CHR 0x20, CHR 0xD0,
      CHR 0xBA, CHR 0xD0, CHR 0xB0, CHR 0xD1, CHR 0x8E, CHR 0xD1, CHR 0x82, CHR 0xD1,
      CHR 0x8B, CHR 0x2C, CHR 0xD0, CHR 0x9F, CHR 0xD0, CHR 0xBE, CHR 0xD1, CHR 0x80,
      CHR 0xD1, CHR 0x82, CHR 0x20, CHR 0xD0, CHR 0xBD, CHR 0xD0, CHR 0xB0, CHR 0xD0,
      CHR 0xB7, CHR 0xD0, CHR 0xBD, CHR 0xD0, CHR 0xB0, CHR 0xD1, CHR 0x87, CHR 0xD0,
      CHR 0xB5, CHR 0xD0, CHR 0xBD, CHR 0xD0, CHR 0xB8, CHR 0xD1, CHR 0x8F, CHR 0x0A]"

definition csv_row :: "Passenger \<Rightarrow> string" where
  "csv_row p =
     fullName p @ '','' @ show_int (sint (cabinNumber p)) @ '','' @ cabinType p @ '',''
       @ destinationPort p @ [CHR 0x0A]"

definition savePassengers :: "string \<Rightarrow> Passenger list \<Rightarrow> fsys \<Rightarrow> fsys" where
  "savePassengers filename passengers fs =
     fs(filename \<mapsto> foldl (\<lambda>out p. out @ csv_row p) csv_header passengers)"

text \<open>
  The lines that the loop of \<^verbatim>\<open>loadPassengers\<close> reads from the bytes \<open>s\<close>, the data rows of
  a file (its lines after the first), and the second comma-separated field of a line, which
  the loop hands to \<^verbatim>\<open>std::stoi\<close>.
\<close>

function file_lines :: "string \<Rightarrow> string list" where
  "file_lines s =
     (case getline (CHR 0x0A) s of None \<Rightarrow> [] | Some (line, rest) \<Rightarrow> line # file_lines rest)"
  by pat_completeness auto
termination
proof (relation "measure length", goal_cases)
  case 1
  show ?case by simp
next
  case (2 s x line rest)
  then have "s \<noteq> []" and "rest = drop 1 (dropWhile (\<lambda>c. c \<noteq> CHR 0x0A) s)"
    by (auto simp: getline_def split: if_splits)
  moreover have "length (dropWhile (\<lambda>c. c \<noteq> CHR 0x0A) s) \<le> length s"
    by (rule length_dropWhile_le)
  ultimately show ?case by (cases s) auto
qed

declare file_lines.simps [simp del]

definition data_rows :: "string \<Rightarrow> string list" where
  "data_rows content =
     (case getline (CHR 0x0A) content of None \<Rightarrow> [] | Some (header, rest) \<Rightarrow> file_lines rest)"

definition second_field :: "string \<Rightarrow> string" where
  "second_field line = fst (get_field (snd (get_field line)))"

text \<open>A field that \<^verbatim>\<open>savePassengers\<close> writes and \<^verbatim>\<open>loadPassengers\<close> reads back unchanged.\<close>

definition plain_field :: "string \<Rightarrow> bool" where
  "plain_field s = (CHR '','' \<notin> set s \<and> CHR 0x0A \<notin> set s)"

definition plain_record :: "Passenger \<Rightarrow> bool" where
  "plain_record p = (plain_field (fullName p) \<and> plain_field (cabinType p) \<and> plain_field (destinationPort p))"


text \<open>The file system that holds no file.\<close>

definition no_files :: fsys where
  "no_files = Map.empty"

section \<open>The benchmark driver\<close>

text \<open>
  The measured durations are an input of the model: \<open>t k\<close> holds the four
  \<^verbatim>\<open>duration_cast<milliseconds>(end - start).count()\<close> values of the \<open>k\<close>-th pass of the loop
  still to run. The log stream is the text written to it so far; it reaches the file when
  \<^verbatim>\<open>main\<close> returns. What the file system holds after a fault is not modelled.
\<close>

type_synonym timings = "nat \<Rightarrow> int \<times> int \<times> int \<times> int"

definition inputFile :: string where
  "inputFile = ''passengers.csv''"

definition sizes :: "int list" where
  "sizes = [100, 1000, 3000, 5000, 7000, 10000, 20000, 30000, 50000, 70000, 100000]"

definition log_header :: string where
  "log_header = ''Size,SelectionSort,InsertionSort,QuickSort,StdSort''"

definition sorted_name :: "string \<Rightarrow> int \<Rightarrow> string" where
  "sorted_name alg sz = ''sorted/'' @ alg @ ''_'' @ show_int sz @ ''.csv''"

text \<open>
  The prefix of a pass,
  \<^verbatim>\<open>std::vector<Passenger> passengers(allPassengers.begin(), allPassengers.begin() + size)\<close>.
  The constructor copies \<open>size\<close> records starting at \<^verbatim>\<open>begin()\<close> and compares \<open>size\<close> with
  nothing. Up to the size of the dataset it copies the loaded records. Past it the read is
  outside the vector and C++ leaves the behaviour undefined: the process may be killed at
  the read, or the read may yield a record that the dataset does not hold and the run goes
  on. Which of the two happens is an input of the model: \<open>past k\<close> is \<open>None\<close> when the read
  at index \<open>k\<close> ends the run and \<open>Some p\<close> when it yields the record \<open>p\<close>. A negative \<open>size\<close>
  is undefined as well; no configured size is negative, so \<^verbatim>\<open>main\<close> never takes that branch.
\<close>

type_synonym past_end = "nat \<Rightarrow> Passenger option"

definition read_cell :: "past_end \<Rightarrow> Passenger list \<Rightarrow> nat \<Rightarrow> Passenger option" where
  "read_cell past arr k = (if k < length arr then Some (arr ! k) else past k)"

definition prefix_slice :: "past_end \<Rightarrow> Passenger list \<Rightarrow> int \<Rightarrow> error + Passenger list" where
  "prefix_slice past arr sz =
     (if sz < 0 then Inl OutOfBounds
      else if list_all (\<lambda>k. read_cell past arr k \<noteq> None) [0..<nat sz]
      then Inr (map (\<lambda>k. the (read_cell past arr k)) [0..<nat sz])
      else Inl OutOfBounds)"

text \<open>
  The memory past the dataset may change between two passes: \<open>m k\<close> is what the reads past
  the end find in the \<open>k\<close>-th pass of the loop still to run.
\<close>

type_synonym memory = "nat \<Rightarrow> past_end"

text \<open>The body of \<^verbatim>\<open>for (int size : sizes) { ... }\<close>, statement by statement.\<close>

fun bench_loop ::
  "memory \<Rightarrow> timings \<Rightarrow> int list \<Rightarrow> Passenger list \<Rightarrow> string \<times> fsys
     \<Rightarrow> error + (string \<times> fsys)" where
  "bench_loop m t [] allPassengers (logFile, fs) = Inr (logFile, fs)"
| "bench_loop m t (sz # rest) allPassengers (logFile, fs) =
     (case prefix_slice (m 0) allPassengers sz of
        Inl e \<Rightarrow> Inl e
      | Inr passengers \<Rightarrow>
          (case t 0 of (t_sel, t_ins, t_qck, t_std) \<Rightarrow>
            (case selectionSort passengers of
               Inl e \<Rightarrow> Inl e
             | Inr selSorted \<Rightarrow>
                 (let log1 = logFile @ show_int sz @ '','' @ show_int t_sel @ '','' in
                  (case insertionSort passengers of
                     Inl e \<Rightarrow> Inl e
                   | Inr insSorted \<Rightarrow>
                       (let log2 = log1 @ show_int t_ins @ '','' in
                        (case quickSortR passengers of
                           Inl e \<Rightarrow> Inl e
                         | Inr qckSorted \<Rightarrow>
                             (let log3 = log2 @ show_int t_qck @ '','';
                                  stdSorted = std_sort passengers;
                                  log4 = log3 @ show_int t_std @ [CHR 0x0A];
                                  fs1 = savePassengers (sorted_name ''ss'' sz) selSorted fs;
                                  fs2 = savePassengers (sorted_name ''is'' sz) insSorted fs1;
                                  fs3 = savePassengers (sorted_name ''qs'' sz) qckSorted fs2
                              in bench_loop (\<lambda>k. m (Suc k)) (\<lambda>k. t (Suc k)) rest allPassengers
                                   (log4, fs3)))))))))"

text \<open>
  The rows that the loop appends to the log for the sizes \<open>szs\<close>: the size and the four
  durations of each pass, comma-separated, each row ended by a line feed.
\<close>

fun log_rows :: "timings \<Rightarrow> int list \<Rightarrow> string" where
  "log_rows t [] = []"
| "log_rows t (sz # rest) =
     (case t 0 of (t_sel, t_ins, t_qck, t_std) \<Rightarrow>
        show_int sz @ '','' @ show_int t_sel @ '','' @ show_int t_ins @ '','' @ show_int t_qck
          @ '','' @ show_int t_std @ [CHR 0x0A])
     @ log_rows (\<lambda>k. t (Suc k)) rest"

text \<open>
  \<^verbatim>\<open>main\<close>: the exit status and the file system it leaves, or the fault that ended it.
\<close>

definition main :: "memory \<Rightarrow> timings \<Rightarrow> fsys \<Rightarrow> error + (int \<times> fsys)" where
  "main m t fs =
     (case loadPassengers inputFile fs of
        Inl e \<Rightarrow> Inl e
      | Inr allPassengers \<Rightarrow>
          (if allPassengers = [] then Inr (1, fs)
           else
             (case bench_loop m t sizes allPassengers (log_header, fs(''timings.csv'' \<mapsto> [])) of
                Inl e \<Rightarrow> Inl e
              | Inr (logFile, fs') \<Rightarrow> Inr (0, fs'(''timings.csv'' \<mapsto> logFile)))))"


text \<open>
  Two memories: one in which every read past the dataset ends the run, and one in which
  every such read yields a record of empty strings and cabin number 0.
\<close>

definition faulting_memory :: memory where
  "faulting_memory = (\<lambda>k i. None)"


text \<open>A run in which every measured duration is 0 ms.\<close>

definition zero_timings :: timings where
  "zero_timings = (\<lambda>k. (0, 0, 0, 0))"

section \<open>Correctness of the sorts\<close>

lemma not_greater_key: "\<not> passenger_greater x p \<longleftrightarrow> order_key x \<le> order_key p"
  by (simp add: passenger_greater_def passenger_less_key not_less)

lemma not_less_key: "\<not> passenger_less x p \<longleftrightarrow> order_key p \<le> order_key x"
  by (simp add: passenger_less_key not_less)

lemma sorted_wrt_passenger_le: "sorted_wrt passenger_le xs \<longleftrightarrow> sorted (map order_key xs)"
  by (simp add: sorted_map passenger_le_key [abs_def])

lemma set_take_nth: "x \<in> set (take a xs) \<Longrightarrow> \<exists>k. k < a \<and> k < length xs \<and> xs ! k = x"
  by (auto simp: in_set_conv_nth)

lemma set_drop_nth: "x \<in> set (drop b xs) \<Longrightarrow> \<exists>k. b \<le> k \<and> k < length xs \<and> xs ! k = x"
proof -
  assume "x \<in> set (drop b xs)"
  then obtain m where "m < length xs - b" "drop b xs ! m = x"
    by (auto simp: in_set_conv_nth)
  then have "b \<le> b + m \<and> b + m < length xs \<and> xs ! (b + m) = x"
    by auto
  then show ?thesis by blast
qed

lemma take_mid_drop: "a \<le> b \<Longrightarrow> take a xs @ take (b - a) (drop a xs) @ drop b xs = xs"
proof -
  assume "a \<le> b"
  then have "drop b xs = drop (b - a) (drop a xs)" by simp
  then show ?thesis by (simp only: append_take_drop_id)
qed

lemma sorted_map_const: "(\<forall>x\<in>set xs. f x = c) \<Longrightarrow> sorted (map f xs)"
  by (induction xs) auto

lemma sorted_short: "length xs \<le> 1 \<Longrightarrow> sorted (map f xs)"
  by (cases xs) auto

lemma quickSortR_sorts:
  "arr \<noteq> [] \<Longrightarrow>
     \<exists>res. quickSortR arr = Inr res \<and> mset res = mset arr \<and> sorted (map order_key res)"
proof (induction "length arr" arbitrary: arr rule: less_induct)
  case less
  let ?n = "length arr"
  define p where "p = arr ! (?n div 2)"
  from less.prems have n0: "0 < ?n" by simp
  then have vat: "vec_at arr (int (?n div 2)) = Inr p"
    by (simp add: vec_at_def p_def)
  from first_partition [OF vat] obtain arr1 i j where
    part: "partition_loop arr p 0 (int ?n - 1) = Inr (arr1, i, j)"
    and len1: "length arr1 = ?n" and ms1: "mset arr1 = mset arr"
    and ji: "j < i" and i1: "1 \<le> i" and jn: "j \<le> int ?n - 2" and "i \<le> int ?n" and j1: "- 1 \<le> j"
    and lft: "\<forall>k. 0 \<le> k \<and> k < i \<longrightarrow> \<not> passenger_greater (arr1 ! nat k) p"
    and rgt: "\<forall>k. j < k \<and> k < int ?n \<longrightarrow> \<not> passenger_less (arr1 ! nat k) p"
    by blast
  define a where "a = nat (j + 1)"
  define b where "b = nat i"
  have ab: "a \<le> b" "b \<le> ?n" "a < ?n" "1 \<le> b"
    using ji i1 jn \<open>i \<le> int ?n\<close> j1 n0 by (auto simp: a_def b_def)
  have ja: "j + 1 = int a" and ib: "i = int b"
    using j1 i1 by (auto simp: a_def b_def)
  have lkey: "order_key (arr1 ! k) \<le> order_key p" if "k < b" for k
    using lft [rule_format, of "int k"] that by (simp add: ib not_greater_key)
  have rkey: "order_key p \<le> order_key (arr1 ! k)" if "a \<le> k" "k < ?n" for k
    using rgt [rule_format, of "int k"] that ja by (simp add: not_less_key)
  \<comment> \<open>the left recursion\<close>
  have "\<exists>L. (if j > 0 then
                (case vec_range arr1 0 (j + 1) of
                   Inl e \<Rightarrow> Inl e
                 | Inr left \<Rightarrow>
                     (case quickSortR left of
                        Inl e \<Rightarrow> Inl e
                      | Inr left' \<Rightarrow> std_copy left' arr1 0))
              else Inr arr1) = Inr (L @ drop a arr1)
            \<and> mset L = mset (take a arr1) \<and> sorted (map order_key L)"
  proof (cases "j > 0")
    case True
    have vr: "vec_range arr1 0 (j + 1) = Inr (take a arr1)"
      using True jn len1 by (simp add: vec_range_def a_def)
    have "0 < a" "arr1 \<noteq> []" using True len1 n0 by (auto simp: a_def)
    then have "take a arr1 \<noteq> []" by simp
    moreover have "length (take a arr1) < ?n" using ab len1 by simp
    ultimately obtain L where
      L: "quickSortR (take a arr1) = Inr L" "mset L = mset (take a arr1)" "sorted (map order_key L)"
      using less.hyps [of "take a arr1"] by blast
    from L(2) have "length L = length (take a arr1)" by (rule mset_eq_length)
    then have lenL: "length L = a" using ab len1 by simp
    have "std_copy L arr1 0 = Inr (L @ drop a arr1)"
      using lenL ab len1 by (simp add: std_copy_def)
    with True vr L show ?thesis by simp
  next
    case False
    then have "a \<le> 1" by (simp add: a_def)
    then have "sorted (map order_key (take a arr1))"
      by (intro sorted_short) simp
    with False show ?thesis by (intro exI [of _ "take a arr1"]) simp
  qed
  then obtain L where
    A: "(if j > 0 then
                (case vec_range arr1 0 (j + 1) of
                   Inl e \<Rightarrow> Inl e
                 | Inr left \<Rightarrow>
                     (case quickSortR left of
                        Inl e \<Rightarrow> Inl e
                      | Inr left' \<Rightarrow> std_copy left' arr1 0))
              else Inr arr1) = Inr (L @ drop a arr1)"
    and msL: "mset L = mset (take a arr1)" and sL: "sorted (map order_key L)"
    by blast
  define arr2 where "arr2 = L @ drop a arr1"
  from msL have "length L = length (take a arr1)" by (rule mset_eq_length)
  then have lenL: "length L = a" using ab len1 by simp
  have len2: "length arr2 = ?n" using lenL ab len1 by (simp add: arr2_def)
  have drop2: "drop b arr2 = drop b arr1"
    using lenL ab by (simp add: arr2_def)
  have take2: "take b arr2 = L @ take (b - a) (drop a arr1)"
    using lenL ab by (simp add: arr2_def)
  \<comment> \<open>the right recursion\<close>
  have "\<exists>R. (if i < int (length arr2) then
                (case vec_range arr2 i (int (length arr2)) of
                   Inl e \<Rightarrow> Inl e
                 | Inr right \<Rightarrow>
                     (case quickSortR right of
                        Inl e \<Rightarrow> Inl e
                      | Inr right' \<Rightarrow> std_copy right' arr2 i))
              else Inr arr2) = Inr (take b arr2 @ R)
            \<and> mset R = mset (drop b arr1) \<and> sorted (map order_key R)"
  proof (cases "i < int (length arr2)")
    case True
    then have bn: "b < ?n" using len2 ib by simp
    have "take (?n - b) (drop b arr2) = drop b arr2"
      using len2 by simp
    then have vr: "vec_range arr2 i (int (length arr2)) = Inr (drop b arr1)"
      using True ib len2 drop2 by (simp add: vec_range_def nat_diff_distrib')
    have "drop b arr1 \<noteq> []" using bn len1 by simp
    moreover have "length (drop b arr1) < ?n" using ab len1 bn by simp
    ultimately obtain R where
      R: "quickSortR (drop b arr1) = Inr R" "mset R = mset (drop b arr1)" "sorted (map order_key R)"
      using less.hyps [of "drop b arr1"] by blast
    from R(2) have "length R = length (drop b arr1)" by (rule mset_eq_length)
    then have lenR: "length R = ?n - b" using len1 by simp
    have "std_copy R arr2 i = Inr (take b arr2 @ R)"
      using lenR bn len2 ib by (simp add: std_copy_def)
    with True vr R show ?thesis by simp
  next
    case False
    then have "b = ?n" using ab len2 ib by simp
    with False len1 len2 show ?thesis by (intro exI [of _ "[]"]) simp
  qed
  then obtain R where
    B: "(if i < int (length arr2) then
                (case vec_range arr2 i (int (length arr2)) of
                   Inl e \<Rightarrow> Inl e
                 | Inr right \<Rightarrow>
                     (case quickSortR right of
                        Inl e \<Rightarrow> Inl e
                      | Inr right' \<Rightarrow> std_copy right' arr2 i))
              else Inr arr2) = Inr (take b arr2 @ R)"
    and msR: "mset R = mset (drop b arr1)" and sR: "sorted (map order_key R)"
    by blast
  define M where "M = take (b - a) (drop a arr1)"
  have res: "quickSortR arr = Inr (L @ M @ R)"
    using vat part A [folded arr2_def] B take2
    by (subst quickSortR.simps) (simp add: M_def)
  have "mset (L @ M @ R) = mset (take a arr1 @ take (b - a) (drop a arr1) @ drop b arr1)"
    using msL msR by (simp add: M_def)
  also have "\<dots> = mset arr1" using ab(1) by (simp only: take_mid_drop)
  finally have ms: "mset (L @ M @ R) = mset arr" using ms1 by simp
  have setL: "order_key x \<le> order_key p" if "x \<in> set L" for x
  proof -
    from that msL have "x \<in> set (take a arr1)" by (metis set_mset_mset)
    then obtain k where "k < a" "k < length arr1" "arr1 ! k = x"
      using set_take_nth by metis
    with lkey [of k] ab show ?thesis by simp
  qed
  have setM: "order_key x = order_key p" if "x \<in> set M" for x
  proof -
    from that have "x \<in> set (drop a arr1)" unfolding M_def by (rule in_set_takeD)
    then obtain k where k: "a \<le> k" "k < length arr1" "arr1 ! k = x"
      using set_drop_nth by metis
    from that obtain m where m: "m < b - a" "m < length (drop a arr1)" "drop a arr1 ! m = x"
      unfolding M_def using set_take_nth by metis
    then have "a + m < b" "a + m < ?n" "arr1 ! (a + m) = x"
      using len1 by auto
    with lkey [of "a + m"] rkey [of "a + m"] show ?thesis by simp
  qed
  have setR: "order_key p \<le> order_key x" if "x \<in> set R" for x
  proof -
    from that msR have "x \<in> set (drop b arr1)" by (metis set_mset_mset)
    then obtain k where "b \<le> k" "k < length arr1" "arr1 ! k = x"
      using set_drop_nth by metis
    with rkey [of k] ab len1 show ?thesis by simp
  qed
  have sM: "sorted (map order_key M)"
    using setM by (intro sorted_map_const [of _ _ "order_key p"]) simp
  have LM: "order_key x \<le> order_key y" if "x \<in> set L" "y \<in> set M" for x y
    using setL [OF that(1)] setM [OF that(2)] by simp
  have LR: "order_key x \<le> order_key y" if "x \<in> set L" "y \<in> set R" for x y
    using setL [OF that(1)] setR [OF that(2)] by (rule order_trans)
  have MR: "order_key x \<le> order_key y" if "x \<in> set M" "y \<in> set R" for x y
    using setM [OF that(1)] setR [OF that(2)] by simp
  have "sorted (map order_key (L @ M @ R))"
    using sL sM sR LM LR MR by (simp add: sorted_append ball_Un)
  with res ms show ?case by blast
qed

lemma sel_inner_spec:
  assumes "n = int (length arr)" "0 \<le> m" "m < j" "j \<le> n"
  shows "\<exists>m'. sel_inner arr n m j = Inr m' \<and> 0 \<le> m' \<and> m' < n \<and> (m' = m \<or> j \<le> m')
           \<and> order_key (arr ! nat m') \<le> order_key (arr ! nat m)
           \<and> (\<forall>k. j \<le> k \<and> k < n \<longrightarrow> order_key (arr ! nat m') \<le> order_key (arr ! nat k))"
  using assms
proof (induction "nat (n - j)" arbitrary: m j rule: less_induct)
  case less
  show ?case
  proof (cases "j < n")
    case False
    then have "sel_inner arr n m j = Inr m"
      by (subst sel_inner.simps) simp
    with False less.prems show ?thesis by auto
  next
    case True
    let ?aj = "arr ! nat j" and ?am = "arr ! nat m"
    define m2 where "m2 = (if passenger_less ?aj ?am then j else m)"
    from True less.prems have atj: "vec_at arr j = Inr ?aj" and atm: "vec_at arr m = Inr ?am"
      by (simp_all add: vec_at_def)
    have eq: "sel_inner arr n m j = sel_inner arr n m2 (j + 1)"
      using True atj atm by (subst sel_inner.simps) (simp add: m2_def)
    have m2: "0 \<le> m2" "m2 < j + 1" "m2 = m \<or> m2 = j"
      using less.prems by (auto simp: m2_def)
    have k2: "order_key (arr ! nat m2) \<le> order_key ?am" "order_key (arr ! nat m2) \<le> order_key ?aj"
      by (auto simp: m2_def passenger_less_key)
    have "nat (n - (j + 1)) < nat (n - j)" using True by simp
    from less.hyps [OF this less.prems(1) m2(1,2)] True
    obtain m' where r: "sel_inner arr n m2 (j + 1) = Inr m'" "0 \<le> m'" "m' < n"
      "m' = m2 \<or> j + 1 \<le> m'" "order_key (arr ! nat m') \<le> order_key (arr ! nat m2)"
      "\<forall>k. j + 1 \<le> k \<and> k < n \<longrightarrow> order_key (arr ! nat m') \<le> order_key (arr ! nat k)"
      by auto
    have all: "order_key (arr ! nat m') \<le> order_key (arr ! nat k)" if "j \<le> k" "k < n" for k
    proof (cases "k = j")
      case True
      with r(5) k2(2) show ?thesis by (auto intro: order_trans)
    next
      case False
      with that r(6) show ?thesis by simp
    qed
    have "order_key (arr ! nat m') \<le> order_key ?am"
      using r(5) k2(1) by (rule order_trans)
    moreover have "m' = m \<or> j \<le> m'" using r(4) m2(3) by auto
    ultimately show ?thesis using eq r(1,2,3) all by auto
  qed
qed

lemma sorted_map_nth:
  "(\<And>k l. k < l \<Longrightarrow> l < length xs \<Longrightarrow> f (xs ! k) \<le> f (xs ! l)) \<Longrightarrow> sorted (map f xs)"
  by (simp add: sorted_iff_nth_mono_less)

lemma sel_outer_spec:
  assumes "n = int (length arr)" "0 \<le> i"
    and "\<forall>k l. k < l \<and> l < length arr \<and> int k < i \<longrightarrow> order_key (arr ! k) \<le> order_key (arr ! l)"
  shows "\<exists>res. sel_outer arr n i = Inr res \<and> mset res = mset arr \<and> sorted (map order_key res)"
  using assms
proof (induction "nat (n - i)" arbitrary: arr i rule: less_induct)
  case less
  note inv = less.prems(3) [rule_format]
  show ?case
  proof (cases "i < n - 1")
    case False
    then have res: "sel_outer arr n i = Inr arr"
      by (subst sel_outer.simps) simp
    have "sorted (map order_key arr)"
    proof (rule sorted_map_nth)
      fix k l assume "k < l" "l < length arr"
      with False less.prems(1) have "int k < i" by simp
      with \<open>k < l\<close> \<open>l < length arr\<close> inv show "order_key (arr ! k) \<le> order_key (arr ! l)" by simp
    qed
    with res show ?thesis by simp
  next
    case True
    have i1: "i < i + 1" "i + 1 \<le> n" using True by simp_all
    from sel_inner_spec [OF less.prems(1,2) i1] obtain m where
      m: "sel_inner arr n i (i + 1) = Inr m" "0 \<le> m" "m < n" "m = i \<or> i + 1 \<le> m"
        "order_key (arr ! nat m) \<le> order_key (arr ! nat i)"
        "\<forall>k. i + 1 \<le> k \<and> k < n \<longrightarrow> order_key (arr ! nat m) \<le> order_key (arr ! nat k)"
      by blast
    have ib: "0 \<le> i" "i < int (length arr)" using less.prems(1,2) True by simp_all
    have mb: "0 \<le> m" "m < int (length arr)" using m(2,3) less.prems(1) by simp_all
    define arr' where "arr' = arr[nat i := arr ! nat m, nat m := arr ! nat i]"
    have len: "length arr' = length arr" by (simp add: arr'_def)
    have ms: "mset arr' = mset arr"
      unfolding arr'_def using ib mb by (intro mset_swap_int) auto
    have eq: "sel_outer arr n i = sel_outer arr' n (i + 1)"
    proof (cases "m = i")
      case True
      then have "arr' = arr" by (simp add: arr'_def)
      with True m(1) \<open>i < n - 1\<close> show ?thesis
        by (subst sel_outer.simps) simp
    next
      case False
      have "std_swap arr i m = Inr arr'"
        unfolding arr'_def using ib mb by (intro std_swap_ok) auto
      with False m(1) \<open>i < n - 1\<close> show ?thesis
        by (subst sel_outer.simps) simp
    qed
    have nth': "arr' ! k = (if int k = m then arr ! nat i else if int k = i then arr ! nat m else arr ! k)"
      if "k < length arr" for k
      using swap_nth [OF ib(1) mb(1) ib(2) mb(2), of "int k"] that by (simp add: arr'_def)
    have minall: "order_key (arr ! nat m) \<le> order_key (arr ! l)" if "i \<le> int l" "l < length arr" for l
    proof (cases "int l = i")
      case True
      then have "nat i = l" by simp
      with m(5) show ?thesis by simp
    next
      case False
      with that m(6) [rule_format, of "int l"] less.prems(1) show ?thesis by simp
    qed
    have inv': "order_key (arr' ! k) \<le> order_key (arr' ! l)"
      if "k < l" "l < length arr'" "int k < i + 1" for k l
    proof -
      from that len have kl: "k < length arr" "l < length arr" by simp_all
      have mi: "i \<le> m" using m(4) by auto
      show ?thesis
      proof (cases "int k = i")
        case True
        with that have il: "i \<le> int l" "i < int l" by simp_all
        from True have ak: "arr' ! k = arr ! nat m" using nth' [OF kl(1)] by simp
        show ?thesis
        proof (cases "int l = m")
          case True
          then have "arr' ! l = arr ! nat i" using nth' [OF kl(2)] by simp
          with ak m(5) show ?thesis by simp
        next
          case False
          then have "arr' ! l = arr ! l" using nth' [OF kl(2)] il by simp
          with ak minall [OF il(1) kl(2)] show ?thesis by simp
        qed
      next
        case False
        with that have ki: "int k < i" by simp
        then have ak: "arr' ! k = arr ! k" using nth' [OF kl(1)] mi by simp
        have kni: "k < nat i" "nat i < length arr" using ki ib by simp_all
        have knm: "k < nat m" "nat m < length arr" using ki mi mb by simp_all
        have "\<exists>l'. k < l' \<and> l' < length arr \<and> arr' ! l = arr ! l'"
        proof (cases "int l = m")
          case True
          then have "arr' ! l = arr ! nat i" using nth' [OF kl(2)] by simp
          with kni show ?thesis by blast
        next
          case lm: False
          show ?thesis
          proof (cases "int l = i")
            case True
            with lm have "arr' ! l = arr ! nat m" using nth' [OF kl(2)] by simp
            with knm show ?thesis by blast
          next
            case False
            with lm nth' [OF kl(2)] have "arr' ! l = arr ! l" by simp
            with that(1) kl(2) show ?thesis by blast
          qed
        qed
        then obtain l' where "k < l'" "l' < length arr" "arr' ! l = arr ! l'" by blast
        with ak inv [of k l'] ki show ?thesis by simp
      qed
    qed
    have "nat (n - (i + 1)) < nat (n - i)" using True by simp
    from less.hyps [OF this, of arr'] less.prems(1,2) len inv'
    obtain res where "sel_outer arr' n (i + 1) = Inr res" "mset res = mset arr'"
      "sorted (map order_key res)"
      by auto
    with eq ms show ?thesis by simp
  qed
qed

lemma selectionSort_sorts:
  "\<exists>res. selectionSort arr = Inr res \<and> mset res = mset arr \<and> sorted (map order_key res)"
  unfolding selectionSort_def by (rule sel_outer_spec) simp_all

lemma shift_mset:
  assumes "0 \<le> j" "j + 1 < int (length arr)"
  shows "mset (arr[nat (j + 1) := arr ! nat j, nat j := key]) = mset (arr[nat (j + 1) := key])"
proof -
  let ?ls = "arr[nat (j + 1) := key]"
  have j: "nat j < length ?ls" "nat (j + 1) < length ?ls" "nat j \<noteq> nat (j + 1)"
    using assms by simp_all
  have "mset (?ls[nat (j + 1) := ?ls ! nat j, nat j := ?ls ! nat (j + 1)]) = mset ?ls"
    using j(1,2) by (rule mset_swap)
  moreover have "?ls ! nat j = arr ! nat j" using j(3) by simp
  moreover have "?ls ! nat (j + 1) = key" using j(2) by simp
  ultimately show ?thesis by simp
qed

lemma ins_inner_spec:
  assumes "- 1 \<le> j" "j + 1 < int (length arr)"
  shows "\<exists>arr' j'. ins_inner arr key j = Inr (arr', j') \<and> length arr' = length arr
           \<and> - 1 \<le> j' \<and> j' \<le> j
           \<and> mset (arr'[nat (j' + 1) := key]) = mset (arr[nat (j + 1) := key])
           \<and> (\<forall>k. 0 \<le> k \<and> k \<le> j' + 1 \<longrightarrow> arr' ! nat k = arr ! nat k)
           \<and> (\<forall>k. j' + 1 < k \<and> k \<le> j + 1 \<longrightarrow> arr' ! nat k = arr ! nat (k - 1))
           \<and> (\<forall>k. j + 1 < k \<and> k < int (length arr) \<longrightarrow> arr' ! nat k = arr ! nat k)
           \<and> (\<forall>k. j' < k \<and> k \<le> j \<longrightarrow> passenger_greater (arr ! nat k) key)
           \<and> (0 \<le> j' \<longrightarrow> \<not> passenger_greater (arr ! nat j') key)"
  using assms
proof (induction "nat (j + 1)" arbitrary: arr j rule: less_induct)
  case less
  show ?case
  proof (cases "0 \<le> j \<and> passenger_greater (arr ! nat j) key")
    case False
    have "ins_inner arr key j = Inr (arr, j)"
    proof (cases "0 \<le> j")
      case True
      with less.prems have "vec_at arr j = Inr (arr ! nat j)" by (simp add: vec_at_def)
      with True False show ?thesis by (subst ins_inner.simps) simp
    next
      case False
      then show ?thesis by (subst ins_inner.simps) simp
    qed
    with False less.prems(1) show ?thesis by auto
  next
    case True
    then have j0: "0 \<le> j" and gt: "passenger_greater (arr ! nat j) key" by simp_all
    define arr1 where "arr1 = arr[nat (j + 1) := arr ! nat j]"
    have len1: "length arr1 = length arr" by (simp add: arr1_def)
    have at: "vec_at arr j = Inr (arr ! nat j)"
      using j0 less.prems(2) by (simp add: vec_at_def)
    have st: "vec_set arr (j + 1) (arr ! nat j) = Inr arr1"
      using j0 less.prems(2) by (simp add: vec_set_def arr1_def)
    have eq: "ins_inner arr key j = ins_inner arr1 key (j - 1)"
      using j0 gt at st by (subst ins_inner.simps) simp
    have nth1: "arr1 ! nat k = arr ! nat k" if "0 \<le> k" "k \<noteq> j + 1" for k
      using that j0 by (simp add: arr1_def)
    have nth1j: "arr1 ! nat (j + 1) = arr ! nat j"
      using j0 less.prems(2) by (simp add: arr1_def)
    have m: "nat (j - 1 + 1) < nat (j + 1)" using j0 by simp
    have p1: "- 1 \<le> j - 1" using j0 by simp
    have p2: "j - 1 + 1 < int (length arr1)" using less.prems(2) len1 by simp
    from less.hyps [OF m p1 p2] obtain arr' j' where
      r: "ins_inner arr1 key (j - 1) = Inr (arr', j')" "length arr' = length arr1"
        "- 1 \<le> j'" "j' \<le> j - 1"
        "mset (arr'[nat (j' + 1) := key]) = mset (arr1[nat (j - 1 + 1) := key])"
        "\<forall>k. 0 \<le> k \<and> k \<le> j' + 1 \<longrightarrow> arr' ! nat k = arr1 ! nat k"
        "\<forall>k. j' + 1 < k \<and> k \<le> j - 1 + 1 \<longrightarrow> arr' ! nat k = arr1 ! nat (k - 1)"
        "\<forall>k. j - 1 + 1 < k \<and> k < int (length arr1) \<longrightarrow> arr' ! nat k = arr1 ! nat k"
        "\<forall>k. j' < k \<and> k \<le> j - 1 \<longrightarrow> passenger_greater (arr1 ! nat k) key"
        "0 \<le> j' \<longrightarrow> \<not> passenger_greater (arr1 ! nat j') key"
      by blast
    have c1: "mset (arr'[nat (j' + 1) := key]) = mset (arr[nat (j + 1) := key])"
    proof -
      have "nat (j - 1 + 1) = nat j" by simp
      with r(5) have "mset (arr'[nat (j' + 1) := key]) = mset (arr1[nat j := key])" by simp
      also have "\<dots> = mset (arr[nat (j + 1) := key])"
        unfolding arr1_def using j0 less.prems(2) by (rule shift_mset)
      finally show ?thesis .
    qed
    have c2: "arr' ! nat k = arr ! nat k" if "0 \<le> k" "k \<le> j' + 1" for k
    proof -
      from that r(4) have "k \<noteq> j + 1" by simp
      with that r(6) nth1 show ?thesis by simp
    qed
    have c3: "arr' ! nat k = arr ! nat (k - 1)" if "j' + 1 < k" "k \<le> j + 1" for k
    proof (cases "k = j + 1")
      case True
      with r(8) len1 less.prems(2) have "arr' ! nat k = arr1 ! nat k" by simp
      with True nth1j show ?thesis by simp
    next
      case False
      with that r(7) have "arr' ! nat k = arr1 ! nat (k - 1)" by simp
      moreover have "0 \<le> k - 1" "k - 1 \<noteq> j + 1" using that r(3) by simp_all
      ultimately show ?thesis using nth1 by simp
    qed
    have c4: "arr' ! nat k = arr ! nat k" if "j + 1 < k" "k < int (length arr)" for k
    proof -
      from that r(8) len1 have "arr' ! nat k = arr1 ! nat k" by simp
      with that j0 nth1 show ?thesis by simp
    qed
    have c5: "passenger_greater (arr ! nat k) key" if "j' < k" "k \<le> j" for k
    proof (cases "k = j")
      case True
      with gt show ?thesis by simp
    next
      case False
      with that r(9) have "passenger_greater (arr1 ! nat k) key" by simp
      moreover have "0 \<le> k" "k \<noteq> j + 1" using that r(3) by simp_all
      ultimately show ?thesis using nth1 by simp
    qed
    have c6: "\<not> passenger_greater (arr ! nat j') key" if "0 \<le> j'"
    proof -
      from that r(10) have "\<not> passenger_greater (arr1 ! nat j') key" by simp
      moreover have "j' \<noteq> j + 1" using r(4) by simp
      ultimately show ?thesis using nth1 that by simp
    qed
    have "j' \<le> j" using r(4) by simp
    with eq r(1,2,3) len1 c1 c2 c3 c4 c5 c6 show ?thesis
      by (intro exI [of _ arr'] exI [of _ j']) simp
  qed
qed

lemma ins_outer_spec:
  assumes "1 \<le> i"
    and "\<forall>k l. k < l \<and> int l < i \<and> l < length arr \<longrightarrow> order_key (arr ! k) \<le> order_key (arr ! l)"
  shows "\<exists>res. ins_outer arr i = Inr res \<and> mset res = mset arr \<and> sorted (map order_key res)"
  using assms
proof (induction "nat (int (length arr) - i)" arbitrary: arr i rule: less_induct)
  case less
  note inv = less.prems(2) [rule_format]
  let ?n = "int (length arr)"
  show ?case
  proof (cases "i < ?n")
    case False
    then have res: "ins_outer arr i = Inr arr"
      by (subst ins_outer.simps) simp
    have "sorted (map order_key arr)"
    proof (rule sorted_map_nth)
      fix k l assume "k < l" "l < length arr"
      with False inv [of k l] show "order_key (arr ! k) \<le> order_key (arr ! l)" by simp
    qed
    with res show ?thesis by simp
  next
    case True
    define key where "key = arr ! nat i"
    have i0: "0 \<le> i" using less.prems(1) by simp
    have at: "vec_at arr i = Inr key"
      using True i0 by (simp add: vec_at_def key_def)
    have p1: "- 1 \<le> i - 1" using less.prems(1) by simp
    have p2: "i - 1 + 1 < ?n" using True by simp
    from ins_inner_spec [OF p1 p2, of key] obtain arr' j' where
      r: "ins_inner arr key (i - 1) = Inr (arr', j')" "length arr' = length arr"
        "- 1 \<le> j'" "j' \<le> i - 1"
        "mset (arr'[nat (j' + 1) := key]) = mset (arr[nat (i - 1 + 1) := key])"
        "\<forall>k. 0 \<le> k \<and> k \<le> j' + 1 \<longrightarrow> arr' ! nat k = arr ! nat k"
        "\<forall>k. j' + 1 < k \<and> k \<le> i - 1 + 1 \<longrightarrow> arr' ! nat k = arr ! nat (k - 1)"
        "\<forall>k. i - 1 + 1 < k \<and> k < ?n \<longrightarrow> arr' ! nat k = arr ! nat k"
        "\<forall>k. j' < k \<and> k \<le> i - 1 \<longrightarrow> passenger_greater (arr ! nat k) key"
        "0 \<le> j' \<longrightarrow> \<not> passenger_greater (arr ! nat j') key"
      by blast
    define arr'' where "arr'' = arr'[nat (j' + 1) := key]"
    have len: "length arr'' = length arr" using r(2) by (simp add: arr''_def)
    have st: "vec_set arr' (j' + 1) key = Inr arr''"
      using r(2,3,4) True by (simp add: vec_set_def arr''_def)
    have eq: "ins_outer arr i = ins_outer arr'' (i + 1)"
      using True at r(1) st by (subst ins_outer.simps) simp
    have ms: "mset arr'' = mset arr"
      using r(5) by (simp add: arr''_def key_def)
    have jn: "nat (j' + 1) < length arr'" using r(2,3,4) True by simp
    have low: "arr'' ! k = arr ! k \<and> order_key (arr ! k) \<le> order_key key" if "int k \<le> j'" for k
    proof -
      from that have j0: "0 \<le> j'" by simp
      from that have "k \<noteq> nat (j' + 1)" by simp
      then have "arr'' ! k = arr' ! nat (int k)" by (simp add: arr''_def)
      also have "\<dots> = arr ! nat (int k)"
        using r(6) [rule_format, of "int k"] that by simp
      finally have a: "arr'' ! k = arr ! k" by simp
      from j0 r(10) have b: "order_key (arr ! nat j') \<le> order_key key"
        by (simp add: not_greater_key)
      have "order_key (arr ! k) \<le> order_key (arr ! nat j')"
      proof (cases "k = nat j'")
        case True
        then show ?thesis by simp
      next
        case False
        with that j0 have "k < nat j'" by simp
        moreover have "int (nat j') < i" "nat j' < length arr" using j0 r(4) True by simp_all
        ultimately show ?thesis by (rule inv [OF conjI [OF _ conjI]])
      qed
      with a b show ?thesis by (auto intro: order_trans)
    qed
    have mid: "arr'' ! nat (j' + 1) = key"
      using jn by (simp add: arr''_def)
    have high: "arr'' ! k = arr ! (k - 1) \<and> order_key key \<le> order_key (arr ! (k - 1)) \<and> 0 < k"
      if "j' + 1 < int k" "int k \<le> i" for k
    proof -
      from that r(3) have k0: "0 < k" by simp
      from that r(3) have "k \<noteq> nat (j' + 1)" by linarith
      then have "arr'' ! k = arr' ! nat (int k)" by (simp add: arr''_def)
      also have "\<dots> = arr ! nat (int k - 1)"
        using r(7) [rule_format, of "int k"] that by simp
      also have "nat (int k - 1) = k - 1" by simp
      finally have a: "arr'' ! k = arr ! (k - 1)" .
      have "j' < int k - 1" "int k - 1 \<le> i - 1" using that by simp_all
      with r(9) [rule_format, of "int k - 1"]
      have "passenger_greater (arr ! nat (int k - 1)) key" by simp
      then have "order_key key \<le> order_key (arr ! (k - 1))"
        by (simp add: passenger_greater_def passenger_less_key nat_diff_distrib')
      with a k0 show ?thesis by simp
    qed
    have inv': "order_key (arr'' ! k) \<le> order_key (arr'' ! l)"
      if "k < l" "int l < i + 1" "l < length arr''" for k l
    proof -
      from that have li: "int l \<le> i" "int k \<le> i" by simp_all
      consider (a) "int l \<le> j'" | (b) "int l = j' + 1" | (c) "j' + 1 < int l" by linarith
      then show ?thesis
      proof cases
        case a
        with that have "int k \<le> j'" by simp
        with low [of k] low [of l] a have "arr'' ! k = arr ! k" "arr'' ! l = arr ! l" by simp_all
        moreover have "int l < i" using a r(4) by simp
        ultimately show ?thesis using inv [of k l] that len by simp
      next
        case b
        with that have "int k \<le> j'" by simp
        moreover from b have "l = nat (j' + 1)" by simp
        ultimately show ?thesis using low [of k] mid by simp
      next
        case c
        note hl = high [OF c li(1)]
        consider (a') "int k \<le> j'" | (b') "int k = j' + 1" | (c') "j' + 1 < int k" by linarith
        then show ?thesis
        proof cases
          case a'
          with low [of k] have "arr'' ! k = arr ! k" by simp
          moreover have "k < l - 1" using a' c by simp
          moreover have "int (l - 1) < i" "l - 1 < length arr" using li hl that len by simp_all
          ultimately show ?thesis using inv [of k "l - 1"] hl by simp
        next
          case b'
          then have "k = nat (j' + 1)" by simp
          with mid hl show ?thesis by simp
        next
          case c'
          note hk = high [OF c' li(2)]
          from hk have "0 < k" by simp
          with that(1) have "k - 1 < l - 1" by linarith
          moreover have "int (l - 1) < i" "l - 1 < length arr" using li hl that len by simp_all
          ultimately show ?thesis using inv [of "k - 1" "l - 1"] hk hl by simp
        qed
      qed
    qed
    have m: "nat (int (length arr'') - (i + 1)) < nat (?n - i)" using True len by simp
    have "1 \<le> i + 1" using less.prems(1) by simp
    from less.hyps [OF m this] inv'
    obtain res where "ins_outer arr'' (i + 1) = Inr res" "mset res = mset arr''"
      "sorted (map order_key res)"
      by blast
    with eq ms show ?thesis by simp
  qed
qed

lemma insertionSort_sorts:
  "\<exists>res. insertionSort arr = Inr res \<and> mset res = mset arr \<and> sorted (map order_key res)"
  unfolding insertionSort_def by (rule ins_outer_spec) simp_all

lemma mset_ref_insert: "mset (ref_insert x xs) = add_mset x (mset xs)"
  by (induction xs) auto

lemma set_ref_insert: "set (ref_insert x xs) = insert x (set xs)"
  by (induction xs) auto

lemma sorted_ref_insert:
  "sorted (map order_key xs) \<Longrightarrow> sorted (map order_key (ref_insert x xs))"
  by (induction xs) (auto simp: set_ref_insert passenger_less_key)

lemma std_sort_sorts:
  "mset (std_sort arr) = mset arr \<and> sorted (map order_key (std_sort arr))"
  unfolding std_sort_def by (induction arr) (auto simp: mset_ref_insert sorted_ref_insert)

lemma quickSortR_empty: "quickSortR [] = Inl OutOfBounds"
  by (subst quickSortR.simps) (simp add: vec_at_def)

lemma selectionSort_short: "length arr \<le> 1 \<Longrightarrow> selectionSort arr = Inr arr"
  unfolding selectionSort_def by (subst sel_outer.simps) simp

lemma insertionSort_short: "length arr \<le> 1 \<Longrightarrow> insertionSort arr = Inr arr"
  unfolding insertionSort_def by (subst ins_outer.simps) simp

lemma quickSortR_single: "quickSortR [x] = Inr [x]"
proof -
  have up: "scan_up [x] x 0 = Inr 0"
    by (subst scan_up.simps) (simp add: vec_at_def passenger_less_irrefl)
  have down: "scan_down [x] x 0 = Inr 0"
    by (subst scan_down.simps) (simp add: vec_at_def passenger_greater_def passenger_less_irrefl)
  have "partition_loop [x] x 0 0 = Inr ([x], 1, - 1)"
    by (subst partition_loop.simps) (simp add: up down std_swap_def vec_at_def)
  then show ?thesis
    by (subst quickSortR.simps) (simp add: vec_at_def)
qed

section \<open>Reading back what was written\<close>

lemma getline_line: "d \<notin> set l \<Longrightarrow> getline d (l @ d # rest) = Some (l, rest)"
proof -
  assume d: "d \<notin> set l"
  then have "takeWhile (\<lambda>c. c \<noteq> d) (l @ d # rest) = l"
    by (induction l) auto
  moreover from d have "dropWhile (\<lambda>c. c \<noteq> d) (l @ d # rest) = d # rest"
    by (induction l) auto
  ultimately show ?thesis by (simp add: getline_def)
qed

lemma get_field_comma: "CHR '','' \<notin> set f \<Longrightarrow> get_field (f @ CHR '','' # rest) = (f, rest)"
  by (simp add: get_field_def getline_line)

lemma get_field_last: "CHR '','' \<notin> set f \<Longrightarrow> get_field f = (f, [])"
proof (cases f)
  case Nil
  then show ?thesis by (simp add: get_field_def getline_def)
next
  case (Cons c cs)
  assume "CHR '','' \<notin> set f"
  then have "takeWhile (\<lambda>c. c \<noteq> CHR '','') f = f" "dropWhile (\<lambda>c. c \<noteq> CHR '','') f = []"
    by (auto simp: takeWhile_eq_all_conv)
  with Cons show ?thesis by (simp add: get_field_def getline_def)
qed

lemma dec_digits_digit: "c \<in> set (dec_digits n) \<Longrightarrow> isdigit c"
proof (induction n arbitrary: c rule: dec_digits.induct)
  case (1 n)
  show ?case
  proof (cases "n < 10")
    case True
    with "1.prems" show ?thesis
      by (subst (asm) dec_digits.simps) (simp add: isdigit_def)
  next
    case False
    have "n mod 10 < 10" by simp
    then have "isdigit (char_of (48 + n mod 10))"
      by (simp add: isdigit_def)
    with False "1.prems" "1.IH" show ?thesis
      by (subst (asm) dec_digits.simps) auto
  qed
qed

lemma dec_digits_nonempty: "dec_digits n \<noteq> []"
  by (subst dec_digits.simps) simp

lemma dec_value_snoc: "dec_value (ds @ [c]) = 10 * dec_value ds + (of_char c - 48)"
  by (simp add: dec_value_def)

lemma dec_value_dec_digits: "dec_value (dec_digits n) = n"
proof (induction n rule: dec_digits.induct)
  case (1 n)
  show ?case
  proof (cases "n < 10")
    case True
    then show ?thesis
      by (subst dec_digits.simps) (simp add: dec_value_def)
  next
    case False
    have "n mod 10 < 10" by simp
    then have "(48 + n mod 10) mod 256 = 48 + n mod 10" by simp
    with False "1.IH" show ?thesis
      by (subst dec_digits.simps) (simp add: dec_value_snoc)
  qed
qed

lemma isdigit_not_special:
  "isdigit c \<Longrightarrow> c \<noteq> CHR '','' \<and> c \<noteq> CHR 0x0A \<and> c \<noteq> CHR ''-'' \<and> c \<noteq> CHR ''+'' \<and> \<not> isspace c"
  by (auto simp: isdigit_def isspace_def)

lemma takeWhile_all: "(\<And>c. c \<in> set xs \<Longrightarrow> P c) \<Longrightarrow> takeWhile P xs = xs"
  by (simp add: takeWhile_eq_all_conv)

lemma stoi_digits:
  assumes "v = (if neg then - int (dec_value ds) else int (dec_value ds))"
    and "ds \<noteq> []" "\<And>c. c \<in> set ds \<Longrightarrow> isdigit c"
    and "- (2 ^ 31) \<le> v" "v < 2 ^ 31"
  shows "stoi ((if neg then ''-'' else []) @ ds) = Inr (word_of_int v)"
proof -
  from assms(2) obtain d ds' where ds: "ds = d # ds'" by (cases ds) auto
  with assms(3) have d: "isdigit d" by simp
  have tw: "takeWhile isdigit ds = ds" using assms(3) by (rule takeWhile_all)
  show ?thesis
  proof (cases neg)
    case True
    have sp: "\<not> isspace CHR ''-''" by (simp add: isspace_def)
    from True assms(1,4,5) show ?thesis
      by (simp add: stoi_def Let_def sp tw assms(2))
  next
    case False
    have s1: "dropWhile isspace ds = ds"
      using d ds isdigit_not_special by simp
    have hd: "hd ds \<noteq> CHR ''-''" "hd ds \<noteq> CHR ''+''"
      using d ds isdigit_not_special by simp_all
    from False assms(1,4,5) show ?thesis
      by (simp add: stoi_def Let_def s1 tw hd assms(2))
  qed
qed

lemma stoi_show_int: "stoi (show_int (sint w)) = Inr (w :: 32 word)"
proof -
  let ?v = "sint w"
  let ?neg = "?v < 0"
  let ?ds = "dec_digits (nat (if ?neg then - ?v else ?v))"
  have sh: "show_int ?v = (if ?neg then ''-'' else []) @ ?ds"
    by (simp add: show_int_def)
  have v: "?v = (if ?neg then - int (dec_value ?ds) else int (dec_value ?ds))"
    by (simp add: dec_value_dec_digits)
  have lo: "- (2 ^ 31) \<le> ?v" using sint_ge [of w] by simp
  have hi: "?v < 2 ^ 31" using sint_lt [of w] by simp
  have "stoi ((if ?neg then ''-'' else []) @ ?ds) = Inr (word_of_int ?v)"
    using v dec_digits_nonempty dec_digits_digit lo hi by (rule stoi_digits)
  then show ?thesis by (simp add: sh)
qed

lemma show_int_chars: "c \<in> set (show_int v) \<Longrightarrow> c \<noteq> CHR '','' \<and> c \<noteq> CHR 0x0A"
  using isdigit_not_special dec_digits_digit
  by (auto simp: show_int_def split: if_splits)

lemma parse_row_csv:
  assumes "plain_record p"
  shows "parse_row (fullName p @ '','' @ show_int (sint (cabinNumber p)) @ '','' @ cabinType p
           @ '','' @ destinationPort p) = Inr p"
proof -
  from assms have c: "CHR '','' \<notin> set (fullName p)" "CHR '','' \<notin> set (cabinType p)"
    "CHR '','' \<notin> set (destinationPort p)"
    by (simp_all add: plain_record_def plain_field_def)
  have n: "CHR '','' \<notin> set (show_int (sint (cabinNumber p)))"
    using show_int_chars by blast
  show ?thesis
    by (simp add: parse_row_def get_field_comma [OF c(1)] get_field_comma [OF n]
          get_field_comma [OF c(2)] get_field_last [OF c(3)] stoi_show_int)
qed

lemma csv_row_line:
  assumes "plain_record p"
  shows "\<exists>line. csv_row p = line @ [CHR 0x0A] \<and> CHR 0x0A \<notin> set line \<and> parse_row line = Inr p"
proof -
  let ?line = "fullName p @ '','' @ show_int (sint (cabinNumber p)) @ '','' @ cabinType p
           @ '','' @ destinationPort p"
  from assms have "CHR 0x0A \<notin> set (fullName p)" "CHR 0x0A \<notin> set (cabinType p)"
    "CHR 0x0A \<notin> set (destinationPort p)"
    by (simp_all add: plain_record_def plain_field_def)
  moreover have "CHR 0x0A \<notin> set (show_int (sint (cabinNumber p)))"
    using show_int_chars by blast
  ultimately have "CHR 0x0A \<notin> set ?line" by simp
  moreover have "csv_row p = ?line @ [CHR 0x0A]" by (simp add: csv_row_def)
  ultimately show ?thesis using parse_row_csv [OF assms] by blast
qed

lemma read_rows_csv:
  "\<forall>p\<in>set ps. plain_record p \<Longrightarrow> read_rows acc (concat (map csv_row ps)) = Inr (acc @ ps)"
proof (induction ps arbitrary: acc)
  case Nil
  show ?case by (subst read_rows.simps) (simp add: getline_def)
next
  case (Cons p ps)
  then have "plain_record p" by simp
  from csv_row_line [OF this] obtain line where
    l: "csv_row p = line @ [CHR 0x0A]" "CHR 0x0A \<notin> set line" "parse_row line = Inr p"
    by blast
  have "getline (CHR 0x0A) (concat (map csv_row (p # ps))) = Some (line, concat (map csv_row ps))"
    using getline_line [OF l(2), of "concat (map csv_row ps)"] l(1) by simp
  then have "read_rows acc (concat (map csv_row (p # ps)))
      = read_rows (acc @ [p]) (concat (map csv_row ps))"
    using l(3) by (subst read_rows.simps) simp
  with Cons show ?case by simp
qed

lemma foldl_rows: "foldl (\<lambda>out p. out @ csv_row p) h ps = h @ concat (map csv_row ps)"
  by (induction ps arbitrary: h) simp_all

lemma csv_header_line: "\<exists>h. csv_header = h @ [CHR 0x0A] \<and> CHR 0x0A \<notin> set h"
  by (rule exI [of _ "butlast csv_header"]) (simp add: csv_header_def)

lemma load_save:
  assumes "\<forall>p\<in>set ps. plain_record p"
  shows "loadPassengers filename (savePassengers filename ps fs) = Inr ps"
proof -
  from csv_header_line obtain h where h: "csv_header = h @ [CHR 0x0A]" "CHR 0x0A \<notin> set h"
    by blast
  have "getline (CHR 0x0A) (csv_header @ concat (map csv_row ps)) = Some (h, concat (map csv_row ps))"
    by (simp add: h(1) getline_line [OF h(2)])
  then show ?thesis
    using read_rows_csv [OF assms, of "[]"]
    by (simp add: loadPassengers_def savePassengers_def foldl_rows)
qed

lemma parse_row_stoi:
  "stoi (second_field line) = Inl e \<Longrightarrow> parse_row line = Inl e"
  by (auto simp: parse_row_def second_field_def split: prod.splits)

lemma read_rows_bad:
  "row \<in> set (file_lines s) \<Longrightarrow> parse_row row = Inl e \<Longrightarrow> \<exists>e'. read_rows acc s = Inl e'"
proof (induction s arbitrary: acc rule: file_lines.induct)
  case (1 s)
  show ?case
  proof (cases "getline (CHR 0x0A) s")
    case None
    with "1.prems"(1) show ?thesis
      by (subst (asm) file_lines.simps) simp
  next
    case (Some lr)
    obtain line rest where lr: "lr = (line, rest)" by (cases lr)
    from Some lr "1.prems"(1) have mem: "row = line \<or> row \<in> set (file_lines rest)"
      by (subst (asm) file_lines.simps) simp
    show ?thesis
    proof (cases "parse_row line")
      case (Inl e1)
      with Some lr show ?thesis
        by (subst read_rows.simps) simp
    next
      case (Inr p)
      with mem "1.prems"(2) have "row \<in> set (file_lines rest)" by auto
      from "1.IH" [OF Some lr [symmetric] this "1.prems"(2)]
      obtain e' where "read_rows (acc @ [p]) rest = Inl e'" by blast
      with Some lr Inr show ?thesis
        by (subst read_rows.simps) simp
    qed
  qed
qed

lemma file_lines_Nil: "file_lines [] = []"
  by (subst file_lines.simps) (simp add: getline_def)

section \<open>The driver\<close>

lemma selectionSort_returns: "\<exists>res. selectionSort arr = Inr res"
  using selectionSort_sorts [of arr] by blast

lemma insertionSort_returns: "\<exists>res. insertionSort arr = Inr res"
  using insertionSort_sorts [of arr] by blast

lemma quickSortR_returns: "arr \<noteq> [] \<Longrightarrow> \<exists>res. quickSortR arr = Inr res"
  using quickSortR_sorts [of arr] by blast


lemma quickSortR_fault_only_empty: "quickSortR arr = Inl e \<Longrightarrow> arr = [] \<and> e = OutOfBounds"
  using quickSortR_returns [of arr] quickSortR_empty by (cases "arr = []") auto

subsection \<open>The prefix slice\<close>

lemma prefix_slice_in_range:
  assumes "0 \<le> sz" "sz \<le> int (length arr)"
  shows "prefix_slice past arr sz = Inr (take (nat sz) arr)"
proof -
  from assms have n: "nat sz \<le> length arr" by linarith
  then have a: "list_all (\<lambda>k. read_cell past arr k \<noteq> None) [0..<nat sz]"
    by (simp add: list_all_iff read_cell_def)
  have "map (\<lambda>k. the (read_cell past arr k)) [0..<nat sz] = take (nat sz) arr"
    using n by (intro nth_equalityI) (simp_all add: read_cell_def)
  with a assms(1) show ?thesis by (simp add: prefix_slice_def)
qed

lemma prefix_slice_shape:
  assumes "prefix_slice past arr sz = Inr ps"
  shows "length ps = nat sz \<and> take (length arr) ps = take (nat sz) arr"
proof -
  from assms have ps: "ps = map (\<lambda>k. the (read_cell past arr k)) [0..<nat sz]"
    by (simp add: prefix_slice_def split: if_splits)
  have "take (length arr) ps = take (nat sz) arr"
    by (intro nth_equalityI) (simp_all add: ps read_cell_def)
  with ps show ?thesis by simp
qed

lemma prefix_slice_total:
  "0 \<le> sz \<Longrightarrow> \<forall>i. past i \<noteq> None \<Longrightarrow> \<exists>ps. prefix_slice past arr sz = Inr ps"
  by (simp add: prefix_slice_def list_all_iff read_cell_def)




subsection \<open>The loop\<close>

lemma bench_loop_log:
  "bench_loop m t szs allPassengers (logFile, fs) = Inr (logFile', fs')
     \<Longrightarrow> logFile' = logFile @ log_rows t szs"
proof (induction szs arbitrary: m t logFile fs)
  case Nil
  then show ?case by simp
next
  case (Cons sz szs)
  obtain a b c d where t0: "t 0 = (a, b, c, d)" by (cases "t 0")
  from Cons.prems t0 obtain fs3 where
    "bench_loop (\<lambda>k. m (Suc k)) (\<lambda>k. t (Suc k)) szs allPassengers
       (logFile @ show_int sz @ '','' @ show_int a @ '','' @ show_int b @ '','' @ show_int c
          @ '','' @ show_int d @ [CHR 0x0A], fs3) = Inr (logFile', fs')"
    by (auto simp: Let_def split: sum.splits)
  from Cons.IH [OF this] t0 show ?case by simp
qed



lemma savePassengers_dom: "dom (savePassengers name ps fs) = insert name (dom fs)"
  by (simp add: savePassengers_def)

lemma bench_loop_completes:
  assumes "\<forall>sz\<in>set szs. 0 < sz"
    and "(\<forall>sz\<in>set szs. sz \<le> int (length allPassengers)) \<or> (\<forall>k i. m k i \<noteq> None)"
  shows "\<exists>logFile' fs'. bench_loop m t szs allPassengers (logFile, fs) = Inr (logFile', fs')
           \<and> dom fs \<subseteq> dom fs'
           \<and> (\<forall>sz\<in>set szs. sorted_name ''ss'' sz \<in> dom fs' \<and> sorted_name ''is'' sz \<in> dom fs'
                 \<and> sorted_name ''qs'' sz \<in> dom fs')"
  using assms
proof (induction szs arbitrary: m t logFile fs)
  case Nil
  then show ?case by simp
next
  case (Cons sz szs)
  obtain a b c d where t0: "t 0 = (a, b, c, d)" by (cases "t 0")
  from Cons.prems(1) have sz: "0 < sz" by simp
  from Cons.prems(2) have "\<exists>ps. prefix_slice (m 0) allPassengers sz = Inr ps"
  proof
    assume "\<forall>sz\<in>set (sz # szs). sz \<le> int (length allPassengers)"
    then have "sz \<le> int (length allPassengers)" by simp
    with sz prefix_slice_in_range [of sz allPassengers "m 0"] show ?thesis by simp
  next
    assume "\<forall>k i. m k i \<noteq> None"
    then have "\<forall>i. m 0 i \<noteq> None" by simp
    with sz prefix_slice_total [of sz "m 0" allPassengers] show ?thesis by simp
  qed
  then obtain ps where vr: "prefix_slice (m 0) allPassengers sz = Inr ps" by blast
  from prefix_slice_shape [OF vr] sz have "ps \<noteq> []" by auto
  then obtain s3 where s3: "quickSortR ps = Inr s3" using quickSortR_returns by blast
  obtain s1 where s1: "selectionSort ps = Inr s1" using selectionSort_returns by blast
  obtain s2 where s2: "insertionSort ps = Inr s2" using insertionSort_returns by blast
  define fs3 where "fs3 = savePassengers (sorted_name ''qs'' sz) s3
     (savePassengers (sorted_name ''is'' sz) s2 (savePassengers (sorted_name ''ss'' sz) s1 fs))"
  define log4 where "log4 = logFile @ show_int sz @ '','' @ show_int a @ '','' @ show_int b @ '',''
     @ show_int c @ '','' @ show_int d @ [CHR 0x0A]"
  have step: "bench_loop m t (sz # szs) allPassengers (logFile, fs)
      = bench_loop (\<lambda>k. m (Suc k)) (\<lambda>k. t (Suc k)) szs allPassengers (log4, fs3)"
    using vr t0 s1 s2 s3 by (simp add: Let_def fs3_def log4_def)
  have d3: "dom fs3 = insert (sorted_name ''qs'' sz) (insert (sorted_name ''is'' sz)
      (insert (sorted_name ''ss'' sz) (dom fs)))"
    by (simp add: fs3_def savePassengers_dom)
  from Cons.prems(1) have p1: "\<forall>sz\<in>set szs. 0 < sz" by simp
  from Cons.prems(2) have p2: "(\<forall>sz\<in>set szs. sz \<le> int (length allPassengers))
      \<or> (\<forall>k i. m (Suc k) i \<noteq> None)" by auto
  from Cons.IH [OF p1 p2, of "\<lambda>k. t (Suc k)" log4 fs3] obtain logFile' fs' where
    r: "bench_loop (\<lambda>k. m (Suc k)) (\<lambda>k. t (Suc k)) szs allPassengers (log4, fs3)
          = Inr (logFile', fs')"
      "dom fs3 \<subseteq> dom fs'"
      "\<forall>sz\<in>set szs. sorted_name ''ss'' sz \<in> dom fs' \<and> sorted_name ''is'' sz \<in> dom fs'
                 \<and> sorted_name ''qs'' sz \<in> dom fs'"
    by blast
  from r(2) d3 have "dom fs \<subseteq> dom fs'" "sorted_name ''ss'' sz \<in> dom fs'"
    "sorted_name ''is'' sz \<in> dom fs'" "sorted_name ''qs'' sz \<in> dom fs'"
    by auto
  with step r(1,3) show ?case by simp
qed

subsection \<open>The whole run\<close>

lemma main_unopened:
  "fs inputFile = None \<Longrightarrow> loadPassengers inputFile fs = Inr [] \<and> main m t fs = Inr (1, fs)"
  by (simp add: loadPassengers_def main_def)

lemma main_completes:
  assumes "loadPassengers inputFile fs = Inr allPassengers" "allPassengers \<noteq> []"
    and "(\<forall>sz\<in>set sizes. sz \<le> int (length allPassengers)) \<or> (\<forall>k i. m k i \<noteq> None)"
  shows "\<exists>fs'. main m t fs = Inr (0, fs')
           \<and> fs' ''timings.csv'' = Some (log_header @ log_rows t sizes)
           \<and> (\<forall>sz\<in>set sizes. fs' (sorted_name ''ss'' sz) \<noteq> None
                 \<and> fs' (sorted_name ''is'' sz) \<noteq> None \<and> fs' (sorted_name ''qs'' sz) \<noteq> None)"
proof -
  have pos: "\<forall>sz\<in>set sizes. 0 < sz" by (simp add: sizes_def)
  from bench_loop_completes [OF pos assms(3), of t log_header "fs(''timings.csv'' \<mapsto> [])"]
  obtain logFile' fs1 where
    r: "bench_loop m t sizes allPassengers (log_header, fs(''timings.csv'' \<mapsto> []))
          = Inr (logFile', fs1)"
      "\<forall>sz\<in>set sizes. sorted_name ''ss'' sz \<in> dom fs1 \<and> sorted_name ''is'' sz \<in> dom fs1
                 \<and> sorted_name ''qs'' sz \<in> dom fs1"
    by blast
  from bench_loop_log [OF r(1)] have lg: "logFile' = log_header @ log_rows t sizes" .
  have mn: "main m t fs = Inr (0, fs1(''timings.csv'' \<mapsto> logFile'))"
    using assms(1,2) r(1) by (simp add: main_def)
  from r(2) have "\<forall>sz\<in>set sizes. (fs1(''timings.csv'' \<mapsto> logFile')) (sorted_name ''ss'' sz) \<noteq> None
                 \<and> (fs1(''timings.csv'' \<mapsto> logFile')) (sorted_name ''is'' sz) \<noteq> None
                 \<and> (fs1(''timings.csv'' \<mapsto> logFile')) (sorted_name ''qs'' sz) \<noteq> None"
    by auto
  with mn lg show ?thesis by simp
qed




lemma show_int_100: "show_int 100 = ''100''"
  by code_simp

lemma big_dataset:
  "loadPassengers inputFile
     (savePassengers inputFile
        (replicate 100000 \<lparr>fullName = ''A'', cabinNumber = 1, cabinType = ''1'', destinationPort = ''X''\<rparr>)
        no_files)
   = Inr (replicate 100000 \<lparr>fullName = ''A'', cabinNumber = 1, cabinType = ''1'', destinationPort = ''X''\<rparr>)"
  by (rule load_save) (simp add: plain_record_def plain_field_def)


section \<open>The order of the records\<close>

text \<open>
  Claim C2. The comparison \<^verbatim>\<open>operator<\<close> of the records is a strict weak ordering: it is
  irreflexive, transitive and asymmetric, and incomparability is transitive. The
  operators \<^verbatim>\<open>>\<close>, \<^verbatim>\<open><=\<close> and \<^verbatim>\<open>>=\<close> are its inversion and its negations.
\<close>

theorem passenger_order_strict_weak:
  "(\<not> passenger_less a a)
   \<and> (passenger_less a b \<longrightarrow> passenger_less b c \<longrightarrow> passenger_less a c)
   \<and> (passenger_less a b \<longrightarrow> \<not> passenger_less b a)
   \<and> (\<not> passenger_less a b \<and> \<not> passenger_less b a \<and> \<not> passenger_less b c \<and> \<not> passenger_less c b
        \<longrightarrow> \<not> passenger_less a c \<and> \<not> passenger_less c a)
   \<and> passenger_greater a b = passenger_less b a
   \<and> passenger_le a b = (\<not> passenger_less b a)
   \<and> passenger_ge a b = (\<not> passenger_less a b)"
  by (auto simp: passenger_less_key passenger_greater_def passenger_le_def passenger_ge_def)

theorem passenger_order_strict_weak_witness:
  "passenger_less
      \<lparr>fullName = ''Ann'', cabinNumber = - 3, cabinType = ''1'', destinationPort = ''Oslo''\<rparr>
      \<lparr>fullName = ''Bob'', cabinNumber = 7, cabinType = ''2'', destinationPort = ''Kiel''\<rparr>
   \<and> passenger_less
      \<lparr>fullName = ''Bob'', cabinNumber = 7, cabinType = ''2'', destinationPort = ''Kiel''\<rparr>
      \<lparr>fullName = ''Abe'', cabinNumber = 7, cabinType = ''3'', destinationPort = ''Kiev''\<rparr>
   \<and> passenger_less
      \<lparr>fullName = ''Ann'', cabinNumber = - 3, cabinType = ''1'', destinationPort = ''Oslo''\<rparr>
      \<lparr>fullName = ''Abe'', cabinNumber = 7, cabinType = ''3'', destinationPort = ''Kiev''\<rparr>
   \<and> \<not> passenger_less
      \<lparr>fullName = ''Bob'', cabinNumber = 7, cabinType = ''2'', destinationPort = ''Kiel''\<rparr>
      \<lparr>fullName = ''Ann'', cabinNumber = - 3, cabinType = ''1'', destinationPort = ''Oslo''\<rparr>
   \<and> passenger_greater
      \<lparr>fullName = ''Bob'', cabinNumber = 7, cabinType = ''2'', destinationPort = ''Kiel''\<rparr>
      \<lparr>fullName = ''Ann'', cabinNumber = - 3, cabinType = ''1'', destinationPort = ''Oslo''\<rparr>
   \<and> \<not> passenger_less
      \<lparr>fullName = ''Eve'', cabinNumber = 9, cabinType = ''1'', destinationPort = ''Riga''\<rparr>
      \<lparr>fullName = ''Eve'', cabinNumber = 9, cabinType = ''2'', destinationPort = ''Riga''\<rparr>
   \<and> \<not> passenger_less
      \<lparr>fullName = ''Eve'', cabinNumber = 9, cabinType = ''2'', destinationPort = ''Riga''\<rparr>
      \<lparr>fullName = ''Eve'', cabinNumber = 9, cabinType = ''1'', destinationPort = ''Riga''\<rparr>
   \<and> \<not> passenger_less
      \<lparr>fullName = ''Eve'', cabinNumber = 9, cabinType = ''2'', destinationPort = ''Riga''\<rparr>
      \<lparr>fullName = ''Eve'', cabinNumber = 9, cabinType = ''3'', destinationPort = ''Riga''\<rparr>
   \<and> \<not> passenger_less
      \<lparr>fullName = ''Eve'', cabinNumber = 9, cabinType = ''3'', destinationPort = ''Riga''\<rparr>
      \<lparr>fullName = ''Eve'', cabinNumber = 9, cabinType = ''2'', destinationPort = ''Riga''\<rparr>
   \<and> \<not> passenger_less
      \<lparr>fullName = ''Eve'', cabinNumber = 9, cabinType = ''1'', destinationPort = ''Riga''\<rparr>
      \<lparr>fullName = ''Eve'', cabinNumber = 9, cabinType = ''3'', destinationPort = ''Riga''\<rparr>
   \<and> \<not> passenger_less
      \<lparr>fullName = ''Eve'', cabinNumber = 9, cabinType = ''3'', destinationPort = ''Riga''\<rparr>
      \<lparr>fullName = ''Eve'', cabinNumber = 9, cabinType = ''1'', destinationPort = ''Riga''\<rparr>"
  using passenger_order_strict_weak
    [of "\<lparr>fullName = ''Ann'', cabinNumber = - 3, cabinType = ''1'', destinationPort = ''Oslo''\<rparr>"
        "\<lparr>fullName = ''Bob'', cabinNumber = 7, cabinType = ''2'', destinationPort = ''Kiel''\<rparr>"
        "\<lparr>fullName = ''Abe'', cabinNumber = 7, cabinType = ''3'', destinationPort = ''Kiev''\<rparr>"]
    passenger_order_strict_weak
    [of "\<lparr>fullName = ''Bob'', cabinNumber = 7, cabinType = ''2'', destinationPort = ''Kiel''\<rparr>"
        "\<lparr>fullName = ''Ann'', cabinNumber = - 3, cabinType = ''1'', destinationPort = ''Oslo''\<rparr>"]
    passenger_order_strict_weak
    [of "\<lparr>fullName = ''Eve'', cabinNumber = 9, cabinType = ''1'', destinationPort = ''Riga''\<rparr>"
        "\<lparr>fullName = ''Eve'', cabinNumber = 9, cabinType = ''2'', destinationPort = ''Riga''\<rparr>"
        "\<lparr>fullName = ''Eve'', cabinNumber = 9, cabinType = ''3'', destinationPort = ''Riga''\<rparr>"]
  by (simp add: passenger_less_def word_sless_alt)

text \<open>
  Claim C10. The comparison never reads \<open>cabinType\<close>: two records that agree on cabin
  number, destination port and full name are not less than one another whatever their
  cabin types, changing a cabin type changes no comparison, and both orders of two such
  records are non-decreasing.
\<close>

theorem cabinType_not_compared:
  assumes "cabinNumber a = cabinNumber b"
    and "destinationPort a = destinationPort b"
    and "fullName a = fullName b"
  shows "\<not> passenger_less a b \<and> \<not> passenger_less b a
    \<and> passenger_less (a\<lparr>cabinType := t\<rparr>) c = passenger_less a c
    \<and> passenger_less c (a\<lparr>cabinType := t\<rparr>) = passenger_less c a
    \<and> sorted_wrt passenger_le [a, b] \<and> sorted_wrt passenger_le [b, a]"
  using assms by (simp add: passenger_less_def passenger_le_def)

theorem cabinType_not_compared_witness:
  "\<not> passenger_less
      \<lparr>fullName = ''Ann'', cabinNumber = 7, cabinType = ''1'', destinationPort = ''Oslo''\<rparr>
      \<lparr>fullName = ''Ann'', cabinNumber = 7, cabinType = ''Lux'', destinationPort = ''Oslo''\<rparr>
   \<and> \<not> passenger_less
      \<lparr>fullName = ''Ann'', cabinNumber = 7, cabinType = ''Lux'', destinationPort = ''Oslo''\<rparr>
      \<lparr>fullName = ''Ann'', cabinNumber = 7, cabinType = ''1'', destinationPort = ''Oslo''\<rparr>
   \<and> sorted_wrt passenger_le
      [\<lparr>fullName = ''Ann'', cabinNumber = 7, cabinType = ''Lux'', destinationPort = ''Oslo''\<rparr>,
       \<lparr>fullName = ''Ann'', cabinNumber = 7, cabinType = ''1'', destinationPort = ''Oslo''\<rparr>]"
  using cabinType_not_compared
    [of "\<lparr>fullName = ''Ann'', cabinNumber = 7, cabinType = ''1'', destinationPort = ''Oslo''\<rparr>"
        "\<lparr>fullName = ''Ann'', cabinNumber = 7, cabinType = ''Lux'', destinationPort = ''Oslo''\<rparr>"]
  by simp

section \<open>The four sorts\<close>

text \<open>
  Claim C1. Each of the four sorts returns a permutation of its input that is
  non-decreasing under the order of the records. This holds for \<^verbatim>\<open>selectionSort\<close>,
  \<^verbatim>\<open>insertionSort\<close> and the reference sort on every sequence, and for \<^verbatim>\<open>quickSortR\<close> on every
  non-empty sequence. On the empty sequence \<^verbatim>\<open>quickSortR\<close> reads \<^verbatim>\<open>arr[0]\<close>, outside the
  vector, and returns nothing.
\<close>

theorem sorts_sorted_permutation:
  "(\<exists>ys. selectionSort S = Inr ys \<and> mset ys = mset S \<and> sorted_wrt passenger_le ys)
   \<and> (\<exists>ys. insertionSort S = Inr ys \<and> mset ys = mset S \<and> sorted_wrt passenger_le ys)
   \<and> mset (std_sort S) = mset S \<and> sorted_wrt passenger_le (std_sort S)
   \<and> (S \<noteq> [] \<longrightarrow>
        (\<exists>ys. quickSortR S = Inr ys \<and> mset ys = mset S \<and> sorted_wrt passenger_le ys))
   \<and> quickSortR [] = Inl OutOfBounds"
  using selectionSort_sorts [of S] insertionSort_sorts [of S] std_sort_sorts [of S]
    quickSortR_sorts [of S] quickSortR_empty
  by (simp add: sorted_wrt_passenger_le)

theorem sorts_sorted_permutation_witness:
  "[\<lparr>fullName = ''B'', cabinNumber = 2, cabinType = ''1'', destinationPort = ''X''\<rparr>,
    \<lparr>fullName = ''A'', cabinNumber = 1, cabinType = ''1'', destinationPort = ''X''\<rparr>] \<noteq> []
   \<and> quickSortR
       [\<lparr>fullName = ''B'', cabinNumber = 2, cabinType = ''1'', destinationPort = ''X''\<rparr>,
        \<lparr>fullName = ''A'', cabinNumber = 1, cabinType = ''1'', destinationPort = ''X''\<rparr>]
     = Inr [\<lparr>fullName = ''A'', cabinNumber = 1, cabinType = ''1'', destinationPort = ''X''\<rparr>,
        \<lparr>fullName = ''B'', cabinNumber = 2, cabinType = ''1'', destinationPort = ''X''\<rparr>]
   \<and> sorted_wrt passenger_le
       [\<lparr>fullName = ''A'', cabinNumber = 1, cabinType = ''1'', destinationPort = ''X''\<rparr>,
        \<lparr>fullName = ''B'', cabinNumber = 2, cabinType = ''1'', destinationPort = ''X''\<rparr>]"
proof -
  let ?S = "[\<lparr>fullName = ''B'', cabinNumber = 2, cabinType = ''1'', destinationPort = ''X''\<rparr>,
    \<lparr>fullName = ''A'', cabinNumber = 1, cabinType = ''1'', destinationPort = ''X''\<rparr>]"
  let ?T = "[\<lparr>fullName = ''A'', cabinNumber = 1, cabinType = ''1'', destinationPort = ''X''\<rparr>,
    \<lparr>fullName = ''B'', cabinNumber = 2, cabinType = ''1'', destinationPort = ''X''\<rparr>]"
  have run: "quickSortR ?S = Inr ?T"
    by code_simp
  have "?S \<noteq> []" by simp
  with sorts_sorted_permutation [of ?S]
  obtain ys where "quickSortR ?S = Inr ys" "sorted_wrt passenger_le ys"
    by blast
  with run show ?thesis by simp
qed

text \<open>
  Claim C4. On the empty sequence and on a sequence of one record, \<^verbatim>\<open>selectionSort\<close>,
  \<^verbatim>\<open>insertionSort\<close> and the reference sort return the sequence unchanged, and so does
  \<^verbatim>\<open>quickSortR\<close> on one record. On the empty sequence \<^verbatim>\<open>quickSortR\<close> does not: its first
  statement after the declarations reads \<^verbatim>\<open>arr[0]\<close> of a vector that has no element.
\<close>

theorem sorts_on_empty_and_singleton:
  "selectionSort [] = Inr [] \<and> selectionSort [x] = Inr [x]
   \<and> insertionSort [] = Inr [] \<and> insertionSort [x] = Inr [x]
   \<and> std_sort [] = [] \<and> std_sort [x] = [x]
   \<and> quickSortR [x] = Inr [x]
   \<and> quickSortR [] = Inl OutOfBounds"
  by (simp add: selectionSort_short insertionSort_short std_sort_def quickSortR_single
        quickSortR_empty)

text \<open>
  Claim C3. \<^verbatim>\<open>quickSortR\<close> returns on every non-empty sequence. The pivot is the middle
  element \<open>arr[size / 2]\<close>; the partition loop started at \<open>i = 0\<close>, \<open>j = size - 1\<close> ends
  without leaving the vector and with \<open>j < i\<close>; the left copy \<open>[0, j]\<close> has \<open>j + 1 < size\<close>
  elements and the right copy \<open>[i, size)\<close> has \<open>size - i < size\<close> elements, so each recursive
  call sorts a strictly shorter sequence. The calls are made only under the guards
  \<open>j > 0\<close> and \<open>i < size\<close>: when both fail the partitioned vector is the result. The
  recursion of the definition is accepted on this measure (the length of the vector).
\<close>

theorem quickSortR_terminates:
  assumes "arr \<noteq> []"
  shows "\<exists>arr1 i j res.
           vec_at arr (int (length arr div 2)) = Inr (arr ! (length arr div 2))
           \<and> partition_loop arr (arr ! (length arr div 2)) 0 (int (length arr) - 1) = Inr (arr1, i, j)
           \<and> length arr1 = length arr
           \<and> j < i \<and> - 1 \<le> j \<and> i \<le> int (length arr)
           \<and> j + 1 < int (length arr) \<and> int (length arr) - i < int (length arr)
           \<and> quickSortR arr = Inr res \<and> length res = length arr
           \<and> (\<not> 0 < j \<and> \<not> i < int (length arr) \<longrightarrow> res = arr1)"
proof -
  let ?p = "arr ! (length arr div 2)"
  from assms have vat: "vec_at arr (int (length arr div 2)) = Inr ?p"
    by (simp add: vec_at_def)
  from first_partition [OF vat] obtain arr1 i j where
    part: "partition_loop arr ?p 0 (int (length arr) - 1) = Inr (arr1, i, j)"
      "length arr1 = length arr" "j < i" "1 \<le> i" "j \<le> int (length arr) - 2"
      "i \<le> int (length arr)" "- 1 \<le> j"
    by blast
  from quickSortR_sorts [OF assms] obtain res where
    res: "quickSortR arr = Inr res" "mset res = mset arr"
    by blast
  from res(2) have len: "length res = length arr" by (rule mset_eq_length)
  have "res = arr1" if "\<not> 0 < j" "\<not> i < int (length arr)"
  proof -
    have "quickSortR arr = Inr arr1"
      using vat part(1,2) that by (subst quickSortR.simps) simp
    with res(1) show ?thesis by simp
  qed
  with vat part res(1) len show ?thesis by simp
qed

theorem quickSortR_terminates_witness:
  "[\<lparr>fullName = ''C'', cabinNumber = 3, cabinType = ''1'', destinationPort = ''X''\<rparr>,
    \<lparr>fullName = ''B'', cabinNumber = 2, cabinType = ''1'', destinationPort = ''X''\<rparr>,
    \<lparr>fullName = ''A'', cabinNumber = 1, cabinType = ''1'', destinationPort = ''X''\<rparr>] \<noteq> []
   \<and> partition_loop
        [\<lparr>fullName = ''C'', cabinNumber = 3, cabinType = ''1'', destinationPort = ''X''\<rparr>,
         \<lparr>fullName = ''B'', cabinNumber = 2, cabinType = ''1'', destinationPort = ''X''\<rparr>,
         \<lparr>fullName = ''A'', cabinNumber = 1, cabinType = ''1'', destinationPort = ''X''\<rparr>]
        \<lparr>fullName = ''B'', cabinNumber = 2, cabinType = ''1'', destinationPort = ''X''\<rparr> 0 2
      = Inr ([\<lparr>fullName = ''A'', cabinNumber = 1, cabinType = ''1'', destinationPort = ''X''\<rparr>,
         \<lparr>fullName = ''B'', cabinNumber = 2, cabinType = ''1'', destinationPort = ''X''\<rparr>,
         \<lparr>fullName = ''C'', cabinNumber = 3, cabinType = ''1'', destinationPort = ''X''\<rparr>], 2, 0)
   \<and> quickSortR
        [\<lparr>fullName = ''C'', cabinNumber = 3, cabinType = ''1'', destinationPort = ''X''\<rparr>,
         \<lparr>fullName = ''B'', cabinNumber = 2, cabinType = ''1'', destinationPort = ''X''\<rparr>,
         \<lparr>fullName = ''A'', cabinNumber = 1, cabinType = ''1'', destinationPort = ''X''\<rparr>]
      = Inr [\<lparr>fullName = ''A'', cabinNumber = 1, cabinType = ''1'', destinationPort = ''X''\<rparr>,
         \<lparr>fullName = ''B'', cabinNumber = 2, cabinType = ''1'', destinationPort = ''X''\<rparr>,
         \<lparr>fullName = ''C'', cabinNumber = 3, cabinType = ''1'', destinationPort = ''X''\<rparr>]"
proof -
  let ?S = "[\<lparr>fullName = ''C'', cabinNumber = 3, cabinType = ''1'', destinationPort = ''X''\<rparr>,
    \<lparr>fullName = ''B'', cabinNumber = 2, cabinType = ''1'', destinationPort = ''X''\<rparr>,
    \<lparr>fullName = ''A'', cabinNumber = 1, cabinType = ''1'', destinationPort = ''X''\<rparr>]"
  let ?T = "[\<lparr>fullName = ''A'', cabinNumber = 1, cabinType = ''1'', destinationPort = ''X''\<rparr>,
    \<lparr>fullName = ''B'', cabinNumber = 2, cabinType = ''1'', destinationPort = ''X''\<rparr>,
    \<lparr>fullName = ''C'', cabinNumber = 3, cabinType = ''1'', destinationPort = ''X''\<rparr>]"
  have part: "partition_loop ?S
      \<lparr>fullName = ''B'', cabinNumber = 2, cabinType = ''1'', destinationPort = ''X''\<rparr> 0 2
      = Inr (?T, 2, 0)"
    by code_simp
  have run: "quickSortR ?S = Inr ?T"
    by code_simp
  have ne: "?S \<noteq> []" by simp
  from quickSortR_terminates [OF ne] obtain res where "quickSortR ?S = Inr res"
    by blast
  with part run ne show ?thesis by simp
qed

section \<open>Loading and saving the records\<close>

text \<open>
  Claim C8. When some data row of the input file has a second field that \<^verbatim>\<open>std::stoi\<close>
  rejects, \<^verbatim>\<open>loadPassengers\<close> ends with an error: it returns no vector, so the row is not
  skipped and no later row is loaded.
\<close>

theorem malformed_number_is_fatal:
  assumes "fs filename = Some content"
    and "row \<in> set (data_rows content)"
    and "stoi (second_field row) = Inl e"
  shows "(\<exists>e'. loadPassengers filename fs = Inl e') \<and> (\<forall>ps. loadPassengers filename fs \<noteq> Inr ps)"
proof -
  from assms(3) have bad: "parse_row row = Inl e" by (rule parse_row_stoi)
  have "\<exists>e'. loadPassengers filename fs = Inl e'"
  proof (cases "getline (CHR 0x0A) content")
    case None
    with assms(2) show ?thesis by (simp add: data_rows_def)
  next
    case (Some hr)
    obtain header rest where hr: "hr = (header, rest)" by (cases hr)
    with Some assms(2) have "row \<in> set (file_lines rest)" by (simp add: data_rows_def)
    from read_rows_bad [OF this bad, of "[]"] Some hr assms(1) show ?thesis
      by (simp add: loadPassengers_def)
  qed
  then show ?thesis by auto
qed

theorem malformed_number_is_fatal_witness:
  "(no_files(''p.csv'' \<mapsto> ''h\<newline>A,x,1,P\<newline>B,2,1,Q\<newline>'')) ''p.csv''
      = Some ''h\<newline>A,x,1,P\<newline>B,2,1,Q\<newline>''
   \<and> ''A,x,1,P'' \<in> set (data_rows ''h\<newline>A,x,1,P\<newline>B,2,1,Q\<newline>'')
   \<and> stoi (second_field ''A,x,1,P'') = Inl InvalidArgument
   \<and> loadPassengers ''p.csv'' (no_files(''p.csv'' \<mapsto> ''h\<newline>A,x,1,P\<newline>B,2,1,Q\<newline>''))
      = Inl InvalidArgument"
proof -
  let ?c = "''h\<newline>A,x,1,P\<newline>B,2,1,Q\<newline>''"
  let ?fs = "no_files(''p.csv'' \<mapsto> ?c)"
  have a: "?fs ''p.csv'' = Some ?c" by simp
  have b: "''A,x,1,P'' \<in> set (data_rows ?c)" by code_simp
  have c: "stoi (second_field ''A,x,1,P'') = Inl InvalidArgument" by code_simp
  have run: "loadPassengers ''p.csv'' ?fs = Inl InvalidArgument"
    by code_simp
  from malformed_number_is_fatal [of ?fs "''p.csv''" ?c "''A,x,1,P''" InvalidArgument, OF a b c]
    run a b c show ?thesis
    by simp
qed

text \<open>
  Claim C9, as amended. When no field of any record contains the comma or the line feed,
  the file that \<^verbatim>\<open>savePassengers\<close> writes is read back by \<^verbatim>\<open>loadPassengers\<close> as the same
  sequence of records, field for field.
\<close>

theorem save_load_roundtrip:
  assumes "\<forall>p\<in>set ps. plain_record p"
  shows "loadPassengers filename (savePassengers filename ps fs) = Inr ps"
  using assms by (rule load_save)

theorem save_load_roundtrip_witness:
  "plain_record \<lparr>fullName = ''Ann Lee'', cabinNumber = 12, cabinType = ''Lux'', destinationPort = ''Oslo''\<rparr>
   \<and> plain_record \<lparr>fullName = '''', cabinNumber = - 7, cabinType = ''2'', destinationPort = ''''\<rparr>
   \<and> loadPassengers ''out.csv''
       (savePassengers ''out.csv''
          [\<lparr>fullName = ''Ann Lee'', cabinNumber = 12, cabinType = ''Lux'', destinationPort = ''Oslo''\<rparr>,
           \<lparr>fullName = '''', cabinNumber = - 7, cabinType = ''2'', destinationPort = ''''\<rparr>]
          no_files)
     = Inr [\<lparr>fullName = ''Ann Lee'', cabinNumber = 12, cabinType = ''Lux'', destinationPort = ''Oslo''\<rparr>,
           \<lparr>fullName = '''', cabinNumber = - 7, cabinType = ''2'', destinationPort = ''''\<rparr>]"
  using save_load_roundtrip
    [of "[\<lparr>fullName = ''Ann Lee'', cabinNumber = 12, cabinType = ''Lux'', destinationPort = ''Oslo''\<rparr>,
           \<lparr>fullName = '''', cabinNumber = - 7, cabinType = ''2'', destinationPort = ''''\<rparr>]"
        "''out.csv''" no_files]
  by (simp add: plain_record_def plain_field_def)

text \<open>
  The claim as the spec states it asks only that no field contains the comma. A record
  whose name holds a line feed is written on two lines; the first, \<open>a\<close>, has no second
  field, and \<^verbatim>\<open>std::stoi\<close> of the empty string throws.
\<close>

theorem save_load_newline_counterexample:
  "CHR '','' \<notin> set (fullName \<lparr>fullName = ''a\<newline>b'', cabinNumber = 1, cabinType = ''1'', destinationPort = ''X''\<rparr>)
   \<and> CHR '','' \<notin> set (cabinType \<lparr>fullName = ''a\<newline>b'', cabinNumber = 1, cabinType = ''1'', destinationPort = ''X''\<rparr>)
   \<and> CHR '','' \<notin> set (destinationPort \<lparr>fullName = ''a\<newline>b'', cabinNumber = 1, cabinType = ''1'', destinationPort = ''X''\<rparr>)
   \<and> loadPassengers ''out.csv''
       (savePassengers ''out.csv''
          [\<lparr>fullName = ''a\<newline>b'', cabinNumber = 1, cabinType = ''1'', destinationPort = ''X''\<rparr>]
          no_files)
     = Inl InvalidArgument"
  by code_simp

section \<open>The run of the benchmark\<close>




text \<open>
  Claim C6. After a run that returns 0 the log file holds the header text followed by one
  row per configured size (the size, then the four durations, then a line feed). The header
  is written without a line feed, so it is not a row of its own: the first line of the
  file is the header followed at once by the first row, \<open>...,StdSort100,...\<close>.
\<close>

theorem log_header_shares_first_row:
  assumes "main m t fs = Inr (0, fs')"
  shows "fs' ''timings.csv'' = Some (log_header @ log_rows t sizes)
    \<and> CHR 0x0A \<notin> set log_header
    \<and> (\<exists>rest. log_rows t sizes = ''100,'' @ rest)"
proof -
  from assms obtain allPassengers logFile fs1 where
    b: "bench_loop m t sizes allPassengers (log_header, fs(''timings.csv'' \<mapsto> []))
          = Inr (logFile, fs1)"
    and f: "fs' = fs1(''timings.csv'' \<mapsto> logFile)"
    by (auto simp: main_def split: sum.splits if_splits)
  from bench_loop_log [OF b] f have "fs' ''timings.csv'' = Some (log_header @ log_rows t sizes)"
    by simp
  moreover have "CHR 0x0A \<notin> set log_header"
    by (simp add: log_header_def)
  moreover have "\<exists>rest. log_rows t sizes = ''100,'' @ rest"
    by (cases "t 0") (simp add: sizes_def show_int_100)
  ultimately show ?thesis by simp
qed

theorem log_header_shares_first_row_witness:
  "\<exists>fs' rest.
     main faulting_memory zero_timings
       (savePassengers inputFile
          (replicate 100000 \<lparr>fullName = ''A'', cabinNumber = 1, cabinType = ''1'', destinationPort = ''X''\<rparr>)
          no_files) = Inr (0, fs')
     \<and> fs' ''timings.csv'' = Some (log_header @ ''100,'' @ rest)"
proof -
  let ?ps = "replicate 100000 \<lparr>fullName = ''A'', cabinNumber = 1, cabinType = ''1'', destinationPort = ''X''\<rparr>"
  let ?fs = "savePassengers inputFile ?ps no_files"
  have "?ps \<noteq> []" by simp
  moreover have "(\<forall>sz\<in>set sizes. sz \<le> int (length ?ps))
      \<or> (\<forall>k i. faulting_memory k i \<noteq> None)" by (simp add: sizes_def)
  ultimately obtain fs' where m: "main faulting_memory zero_timings ?fs = Inr (0, fs')"
    using main_completes [OF big_dataset, of faulting_memory zero_timings] by blast
  from log_header_shares_first_row [OF m] obtain rest where
    "fs' ''timings.csv'' = Some (log_header @ ''100,'' @ rest)"
    by auto
  with m show ?thesis by blast
qed

text \<open>
  Claim C7. When the input file cannot be opened, \<^verbatim>\<open>loadPassengers\<close> returns the empty
  vector and \<^verbatim>\<open>main\<close> returns 1 with the file system as it found it. When the dataset
  loads, is not empty and has at least as many records as every configured size,
  \<^verbatim>\<open>main\<close> returns 0, the log holds a row for every configured size, and the three sorted
  files of every configured size have been written.
\<close>

theorem main_exit_status:
  "(fs inputFile = None \<longrightarrow> loadPassengers inputFile fs = Inr [] \<and> main m t fs = Inr (1, fs))
   \<and> (loadPassengers inputFile fs = Inr allPassengers \<and> allPassengers \<noteq> []
        \<and> (\<forall>sz\<in>set sizes. sz \<le> int (length allPassengers))
      \<longrightarrow> (\<exists>fs'. main m t fs = Inr (0, fs')
             \<and> fs' ''timings.csv'' = Some (log_header @ log_rows t sizes)
             \<and> (\<forall>sz\<in>set sizes. fs' (sorted_name ''ss'' sz) \<noteq> None
                   \<and> fs' (sorted_name ''is'' sz) \<noteq> None \<and> fs' (sorted_name ''qs'' sz) \<noteq> None)))"
  using main_unopened [of fs m t] main_completes [of fs allPassengers m t] by blast

theorem main_exit_status_witness:
  "no_files inputFile = None
   \<and> loadPassengers inputFile no_files = Inr []
   \<and> main faulting_memory zero_timings no_files = Inr (1, no_files)
   \<and> loadPassengers inputFile
       (savePassengers inputFile
          (replicate 100000 \<lparr>fullName = ''A'', cabinNumber = 1, cabinType = ''1'', destinationPort = ''X''\<rparr>)
          no_files)
     = Inr (replicate 100000 \<lparr>fullName = ''A'', cabinNumber = 1, cabinType = ''1'', destinationPort = ''X''\<rparr>)
   \<and> (\<exists>fs'. main faulting_memory zero_timings
       (savePassengers inputFile
          (replicate 100000 \<lparr>fullName = ''A'', cabinNumber = 1, cabinType = ''1'', destinationPort = ''X''\<rparr>)
          no_files) = Inr (0, fs'))"
proof -
  let ?ps = "replicate 100000 \<lparr>fullName = ''A'', cabinNumber = 1, cabinType = ''1'', destinationPort = ''X''\<rparr>"
  let ?fs = "savePassengers inputFile ?ps no_files"
  have n: "no_files inputFile = None" by (simp add: no_files_def)
  have ne: "?ps \<noteq> []" by simp
  have cov: "\<forall>sz\<in>set sizes. sz \<le> int (length ?ps)" by (simp add: sizes_def)
  from main_exit_status [where fs = no_files and m = faulting_memory and t = zero_timings] n
  have a: "loadPassengers inputFile no_files = Inr []
      \<and> main faulting_memory zero_timings no_files = Inr (1, no_files)"
    by blast
  from main_exit_status [where fs = ?fs and allPassengers = ?ps and m = faulting_memory
      and t = zero_timings]
    big_dataset ne cov
  have "\<exists>fs'. main faulting_memory zero_timings ?fs = Inr (0, fs')"
    by blast
  with n a big_dataset show ?thesis by blast
qed

end
